theory Spec2Isabelle
  imports Main "HOL-Library.Multiset" "HOL-Library.Word"
begin

section \<open>Errors, time and the destination store\<close>

text \<open>
  Go errors are values.  \<open>NotExist msg\<close> is an error for which
  \<^verbatim>\<open>os.IsNotExist\<close> holds and whose \<^verbatim>\<open>Error()\<close> is \<open>msg\<close>: \<^verbatim>\<open>os.ErrNotExist\<close>
  itself, or a \<^verbatim>\<open>*PathError\<close> around it with the path in its text.
  \<open>ErrCanceled\<close> is what \<^verbatim>\<open>ctx.Err()\<close> returns for a cancelled context, every
  other failure is \<open>ErrOther\<close> with its message.  A Go result \<^verbatim>\<open>err error\<close> is
  an \<open>error option\<close>, \<open>None\<close> being \<^verbatim>\<open>nil\<close>.
\<close>

datatype error = NotExist string | ErrCanceled | ErrOther string

text \<open>\<^verbatim>\<open>os.ErrNotExist\<close>, the error the store gives for a name that is not there.\<close>

abbreviation ErrNotExist :: error where
  "ErrNotExist \<equiv> NotExist ''file does not exist''"

fun isNotExist :: "error \<Rightarrow> bool" where
  "isNotExist (NotExist _) = True"
| "isNotExist _ = False"

text \<open>The text of \<^verbatim>\<open>err.Error()\<close>.\<close>

fun errorText :: "error \<Rightarrow> string" where
  "errorText (NotExist msg) = msg"
| "errorText ErrCanceled = ''context canceled''"
| "errorText (ErrOther msg) = msg"

text \<open>
  A \<^verbatim>\<open>time.Time\<close> is a count of nanoseconds.  It keeps seconds and
  nanoseconds apart and reaches far beyond what 64 bits of nanoseconds hold, so
  it is an integer with no bound.  A \<^verbatim>\<open>time.Duration\<close> is an \<^verbatim>\<open>int64\<close> of
  nanoseconds, a 64-bit word read as signed: its negation wraps, the least
  duration being its own negative.  \<^verbatim>\<open>t.Add(d)\<close> is \<open>t + sint d\<close> and
  \<^verbatim>\<open>t.After(u)\<close> is \<open>u < t\<close>.
\<close>

type_synonym time = int

type_synonym duration = "64 word"

text \<open>\<^verbatim>\<open>1 * time.Hour\<close>, as the integer of nanoseconds it denotes.\<close>

definition workTimeLimit :: int where
  "workTimeLimit = 1 * (3600 * 1000000000)"

text \<open>
  \<^verbatim>\<open>am.config\<close>, as far as the lease needs it: the local clock
  (\<^verbatim>\<open>Clock().Now()\<close>) and \<^verbatim>\<open>MDServer().OffsetFromServerTime()\<close>, whose second
  result \<^verbatim>\<open>haveOffset\<close> is false exactly when the offset is \<open>None\<close>.
\<close>

record config =
  clockNow :: time
  serverOffset :: "duration option"

text \<open>
  Modelled from the spec: the shared file store (package libfs is not part of
  the sources at hand).  The spec lists its capabilities: create, open, stat and
  remove a named file, lock and unlock an open file, set a modification time,
  list and remove directories.  The destination directory is a map from names
  to nodes; a directory node lists its children by name and content.
\<close>

datatype node =
    File (modTime: time) (content: string)
  | Dir (modTime: time) (children: "(string \<times> string) list")

text \<open>
  Every call into the store or into another collaborator can fail.  Which calls
  fail is an input of the model: \<open>fails w c = Some e\<close> makes call \<open>c\<close> return
  \<open>e\<close> and leave the store as it was.
\<close>

datatype call =
    CreateC string | LockC string | UnlockC string | CloseC string
  | StatC string | ChtimesC string | RemoveC string | WriteC string
  | MkdirAllC string | ChrootC string | ReadDirC string | SyncAllC
  | NewFSC | GetNewConfigC | MakeUniqueIDC | GetRepoAndIDC
  | ResetC | RecursiveDeleteC | GetJournalServerC | FinishSingleOpC

record world =
  entries :: "string \<rightharpoonup> node"
  fails :: "call \<Rightarrow> error option"

text \<open>
  Modelled from the spec: \<^verbatim>\<open>Create\<close> of the store opens the named file, making
  an empty one when there is none.
\<close>

definition fsCreate :: "config \<Rightarrow> string \<Rightarrow> world \<Rightarrow> error + world" where
  "fsCreate cfg name w =
     (case fails w (CreateC name) of
        Some e \<Rightarrow> Inl e
      | None \<Rightarrow>
          (case entries w name of
             Some _ \<Rightarrow> Inr w
           | None \<Rightarrow> Inr (w\<lparr>entries := (entries w)(name \<mapsto> File (clockNow cfg) [])\<rparr>)))"

text \<open>Calls that only succeed or fail: lock, unlock, close, sync and the like.\<close>

definition callOnly :: "call \<Rightarrow> world \<Rightarrow> error option" where
  "callOnly c w = fails w c"

text \<open>
  Modelled from the spec: \<^verbatim>\<open>Stat\<close> of the store answers with the modification
  time, or a not-exist error.
\<close>

definition fsStat :: "string \<Rightarrow> world \<Rightarrow> error + time" where
  "fsStat name w =
     (case fails w (StatC name) of
        Some e \<Rightarrow> Inl e
      | None \<Rightarrow>
          (case entries w name of
             None \<Rightarrow> Inl ErrNotExist
           | Some n \<Rightarrow> Inr (modTime n)))"

definition setModTime :: "time \<Rightarrow> node \<Rightarrow> node" where
  "setModTime t n = (case n of File _ c \<Rightarrow> File t c | Dir _ cs \<Rightarrow> Dir t cs)"

definition fsChtimes :: "string \<Rightarrow> time \<Rightarrow> world \<Rightarrow> error + world" where
  "fsChtimes name t w =
     (case fails w (ChtimesC name) of
        Some e \<Rightarrow> Inl e
      | None \<Rightarrow>
          (case entries w name of
             None \<Rightarrow> Inl ErrNotExist
           | Some n \<Rightarrow> Inr (w\<lparr>entries := (entries w)(name \<mapsto> setModTime t n)\<rparr>)))"

text \<open>
  Modelled from the spec: \<^verbatim>\<open>Remove\<close> of the store.  Removing a name that is not
  there is a not-exist error, the case that the release tests for with
  \<^verbatim>\<open>os.IsNotExist\<close> after removing the last-error marker.
\<close>

definition fsRemove :: "string \<Rightarrow> world \<Rightarrow> error + world" where
  "fsRemove name w =
     (case fails w (RemoveC name) of
        Some e \<Rightarrow> Inl e
      | None \<Rightarrow>
          (case entries w name of
             None \<Rightarrow> Inl ErrNotExist
           | Some (File _ _) \<Rightarrow> Inr (w\<lparr>entries := (entries w)(name := None)\<rparr>)
           | Some (Dir _ cs) \<Rightarrow>
               (if cs = [] then Inr (w\<lparr>entries := (entries w)(name := None)\<rparr>)
                else Inl (ErrOther ''directory not empty''))))"

text \<open>\<^verbatim>\<open>io.WriteString\<close> at the start of a freshly opened file.\<close>

definition fsWriteString :: "string \<Rightarrow> string \<Rightarrow> world \<Rightarrow> error + world" where
  "fsWriteString name txt w =
     (case fails w (WriteC name) of
        Some e \<Rightarrow> Inl e
      | None \<Rightarrow>
          (case entries w name of
             Some (File t c) \<Rightarrow>
               Inr (w\<lparr>entries := (entries w)(name \<mapsto> File t (txt @ drop (length txt) c))\<rparr>)
           | _ \<Rightarrow> Inl ErrNotExist))"

section \<open>The lease\<close>

definition autogitLockName :: "string \<Rightarrow> string" where
  "autogitLockName srcRepo = ''.autogit_'' @ srcRepo @ ''.lock''"

definition autogitWorkingName :: "string \<Rightarrow> string" where
  "autogitWorkingName srcRepo = ''.autogit_'' @ srcRepo @ ''.working''"

definition autogitLastErrName :: "string \<Rightarrow> string" where
  "autogitLastErrName srcRepo = ''.autogit_'' @ srcRepo @ ''.lasterr''"

definition commonTime :: "config \<Rightarrow> time" where
  "commonTime cfg =
     (case serverOffset cfg of
        None \<Rightarrow> clockNow cfg
      | Some offset \<Rightarrow> clockNow cfg + sint (- offset))"

text \<open>
  The part of \<^verbatim>\<open>canWorkOnRepo\<close> that runs once the lock file is open: it takes
  the lock, looks at the working marker and decides.  The result is the pair of
  Go results \<^verbatim>\<open>(canWork, err)\<close> and the store.
\<close>

definition canWorkLocked ::
  "config \<Rightarrow> world \<Rightarrow> string \<Rightarrow> (bool \<times> error option) \<times> world" where
  "canWorkLocked cfg w repo =
     (case callOnly (LockC (autogitLockName repo)) w of
        Some e \<Rightarrow> ((False, Some e), w)
      | None \<Rightarrow>
          (let workingFileName = autogitWorkingName repo;
               fi = fsStat workingFileName w;
               currCommonTime = commonTime cfg;
               setTime = (\<lambda>w'.
                 case fsChtimes workingFileName currCommonTime w' of
                   Inl e \<Rightarrow> ((False, Some e), w')
                 | Inr w'' \<Rightarrow> ((True, None), w''))
           in case fi of
                Inl e \<Rightarrow>
                  (if \<not> isNotExist e then ((False, Some e), w)
                   else
                     (case fsCreate cfg workingFileName w of
                        Inl e' \<Rightarrow> ((False, Some e'), w)
                      | Inr w1 \<Rightarrow>
                          (case callOnly (CloseC workingFileName) w1 of
                             Some e' \<Rightarrow> ((False, Some e'), w1)
                           | None \<Rightarrow> setTime w1)))
              | Inr modCommonTime \<Rightarrow>
                  (if currCommonTime < modCommonTime + workTimeLimit
                   then ((False, None), w)
                   else setTime w)))"

text \<open>
  \<^verbatim>\<open>canWorkOnRepo\<close>: open the lock file, run the locked part, and close the lock
  file in the deferred function, whose error becomes the result's error when
  there was none.
\<close>

definition canWorkOnRepo ::
  "config \<Rightarrow> world \<Rightarrow> string \<Rightarrow> (bool \<times> error option) \<times> world" where
  "canWorkOnRepo cfg w repo =
     (case fsCreate cfg (autogitLockName repo) w of
        Inl e \<Rightarrow> ((False, Some e), w)
      | Inr w0 \<Rightarrow>
          (case canWorkLocked cfg w0 repo of
             ((canWork, err), w1) \<Rightarrow>
               (let closeErr = callOnly (CloseC (autogitLockName repo)) w1
                in ((canWork, (if err = None then closeErr else err)), w1))))"

text \<open>
  The part of \<^verbatim>\<open>workDoneOnRepo\<close> under the open lock file.  The deferred
  \<^verbatim>\<open>lastErrFile.Close()\<close> drops its error and changes nothing here.
\<close>

definition workDoneLocked ::
  "config \<Rightarrow> world \<Rightarrow> string \<Rightarrow> error option \<Rightarrow> error option \<times> world" where
  "workDoneLocked cfg w repo workErr =
     (case callOnly (LockC (autogitLockName repo)) w of
        Some e \<Rightarrow> (Some e, w)
      | None \<Rightarrow>
          (case fsRemove (autogitWorkingName repo) w of
             Inl e \<Rightarrow> (Some e, w)
           | Inr w1 \<Rightarrow>
               (let writeLast = (\<lambda>w2.
                      case workErr of
                        None \<Rightarrow> (None, w2)
                      | Some we \<Rightarrow>
                          (case fsCreate cfg (autogitLastErrName repo) w2 of
                             Inl e \<Rightarrow> (Some e, w2)
                           | Inr w3 \<Rightarrow>
                               (case fsWriteString (autogitLastErrName repo)
                                       (errorText we) w3 of
                                  Inl e \<Rightarrow> (Some e, w3)
                                | Inr w4 \<Rightarrow> (None, w4))))
                in case fsRemove (autogitLastErrName repo) w1 of
                     Inl e \<Rightarrow> (if \<not> isNotExist e then (Some e, w1) else writeLast w1)
                   | Inr w2 \<Rightarrow> writeLast w2)))"

definition workDoneOnRepo ::
  "config \<Rightarrow> world \<Rightarrow> string \<Rightarrow> error option \<Rightarrow> error option \<times> world" where
  "workDoneOnRepo cfg w repo workErr =
     (case fsCreate cfg (autogitLockName repo) w of
        Inl e \<Rightarrow> (Some e, w)
      | Inr w0 \<Rightarrow>
          (case workDoneLocked cfg w0 repo workErr of
             (err, w1) \<Rightarrow>
               (let closeErr = callOnly (CloseC (autogitLockName repo)) w1
                in ((if err = None then closeErr else err), w1))))"

text \<open>
  \<^verbatim>\<open>removeLock\<close>: remove the lock file, sync, and finish the single-op journal.
\<close>

definition removeLock :: "world \<Rightarrow> string \<Rightarrow> error option \<times> world" where
  "removeLock w repo =
     (case fsRemove (autogitLockName repo) w of
        Inl e \<Rightarrow> (Some e, w)
      | Inr w1 \<Rightarrow>
          (case callOnly SyncAllC w1 of
             Some e \<Rightarrow> (Some e, w1)
           | None \<Rightarrow>
               (case callOnly GetJournalServerC w1 of
                  Some e \<Rightarrow> (Some e, w1)
                | None \<Rightarrow> (callOnly FinishSingleOpC w1, w1))))"

text \<open>\<^verbatim>\<open>Chroot\<close> needs the directory to be there.\<close>

definition fsChroot :: "string \<Rightarrow> world \<Rightarrow> error option" where
  "fsChroot name w =
     (case fails w (ChrootC name) of
        Some e \<Rightarrow> Some e
      | None \<Rightarrow>
          (case entries w name of
             Some (Dir _ _) \<Rightarrow> None
           | _ \<Rightarrow> Some ErrNotExist))"

text \<open>
  Modelled from the spec: \<^verbatim>\<open>recursiveDelete\<close> (in another file of the package)
  recursively removes the destination subtree.
\<close>

definition recursiveDelete :: "string \<Rightarrow> world \<Rightarrow> error option \<times> world" where
  "recursiveDelete name w =
     (case fails w RecursiveDeleteC of
        Some e \<Rightarrow> (Some e, w)
      | None \<Rightarrow> (None, w\<lparr>entries := (entries w)(name := None)\<rparr>))"

section \<open>Requests\<close>

text \<open>
  A \<^verbatim>\<open>*libkbfs.TlfHandle\<close> is used through \<^verbatim>\<open>GetCanonicalPath()\<close> only and is
  that path here.  A channel \<^verbatim>\<open>chan struct{}\<close> is its address; which channels
  are closed is part of the manager's state below.
\<close>

type_synonym tlfHandle = string
type_synonym chan = nat

record resetReq =
  srcTLF :: tlfHandle
  srcRepo :: string
  branchName :: string
  dstTLF :: tlfHandle
  dstDir :: string
  doneCh :: chan

text \<open>
  \<^verbatim>\<open>path.Join\<close> of the standard library is a parameter, \<open>join\<close>, of everything
  that computes a request's identity.
\<close>

definition resetReq_id :: "(string list \<Rightarrow> string) \<Rightarrow> resetReq \<Rightarrow> string" where
  "resetReq_id join r = join [dstTLF r, dstDir r, srcRepo r]"

text \<open>The fields of \<^verbatim>\<open>deleteReq\<close>, prefixed since a field name is a constant.\<close>

record deleteReq =
  delDstTLF :: tlfHandle
  delDstDir :: string
  delRepo :: string
  delBranchName :: string
  delDoneCh :: chan

text \<open>
  \<^verbatim>\<open>doReset\<close>.  The single-op configuration, the unique id and the source
  repository come from collaborators and can only fail here; \<^verbatim>\<open>Reset\<close>
  likewise, the content of the checked-out tree being outside this model.  The
  deferred \<^verbatim>\<open>workDoneOnRepo\<close> runs once the lease was granted, with the error
  of the body.
\<close>

definition doReset :: "config \<Rightarrow> world \<Rightarrow> resetReq \<Rightarrow> error option \<times> world" where
  "doReset cfg w req =
     (case callOnly GetNewConfigC w of
        Some e \<Rightarrow> (Some e, w)
      | None \<Rightarrow>
     (case callOnly MakeUniqueIDC w of
        Some e \<Rightarrow> (Some e, w)
      | None \<Rightarrow>
     (case callOnly GetRepoAndIDC w of
        Some e \<Rightarrow> (Some e, w)
      | None \<Rightarrow>
     (case callOnly NewFSC w of
        Some e \<Rightarrow> (Some e, w)
      | None \<Rightarrow>
     (case canWorkOnRepo cfg w (srcRepo req) of
        ((canWork, err), w1) \<Rightarrow>
          if err \<noteq> None then (err, w1)
          else if \<not> canWork then (None, w1)
          else
            (let err2 = (case fsChroot (srcRepo req) w1 of
                           Some e \<Rightarrow> Some e
                         | None \<Rightarrow> callOnly ResetC w1)
             in case workDoneOnRepo cfg w1 (srcRepo req) err2 of
                  (workDoneErr, w2) \<Rightarrow>
                    ((if err2 = None then workDoneErr else err2), w2)))))))"

text \<open>
  \<^verbatim>\<open>doDelete\<close>; its deferred function releases the lease and then removes the
  lock file, each error kept only when there was none before.
\<close>

definition doDelete :: "config \<Rightarrow> world \<Rightarrow> deleteReq \<Rightarrow> error option \<times> world" where
  "doDelete cfg w req =
     (case callOnly GetNewConfigC w of
        Some e \<Rightarrow> (Some e, w)
      | None \<Rightarrow>
     (case callOnly MakeUniqueIDC w of
        Some e \<Rightarrow> (Some e, w)
      | None \<Rightarrow>
     (case callOnly NewFSC w of
        Some e \<Rightarrow> (Some e, w)
      | None \<Rightarrow>
     (case canWorkOnRepo cfg w (delRepo req) of
        ((canWork, err), w1) \<Rightarrow>
          if err \<noteq> None then (err, w1)
          else if \<not> canWork then (None, w1)
          else
            (case (case fsStat (delRepo req) w1 of
                     Inl e \<Rightarrow> (Some e, w1)
                   | Inr fi \<Rightarrow> recursiveDelete (delRepo req) w1) of
               (err2, w2) \<Rightarrow>
                 (case workDoneOnRepo cfg w2 (delRepo req) err2 of
                    (workDoneErr, w3) \<Rightarrow>
                      (let err3 = (if err2 = None then workDoneErr else err2)
                       in case removeLock w3 (delRepo req) of
                            (rmErr, w4) \<Rightarrow>
                              ((if err3 = None then rmErr else err3), w4))))))))"

section \<open>The manager\<close>

text \<open>
  Modelled from the spec: the unbounded queue
  (\<^verbatim>\<open>libkbfs.NewInfiniteChannelWrapper\<close>, not part of the sources at hand) is
  its buffer and whether its input was closed.  Items enqueued before the close
  are still handed out; the output ends once the buffer is empty.
\<close>

record 'a infChan =
  items :: "'a list"
  inClosed :: bool

text \<open>
  What an operation does: it goes on with a result, it blocks, or it panics
  (a send on a closed channel, the close of a closed channel).
\<close>

datatype 'a outcome = Next 'a | Blocked | Panic

definition chSend :: "'a \<Rightarrow> 'a infChan \<Rightarrow> 'a infChan outcome" where
  "chSend x q = (if inClosed q then Panic else Next (q\<lparr>items := items q @ [x]\<rparr>))"

definition chClose :: "'a infChan \<Rightarrow> 'a infChan outcome" where
  "chClose q = (if inClosed q then Panic else Next (q\<lparr>inClosed := True\<rparr>))"

text \<open>
  The fields of \<^verbatim>\<open>AutogitManager\<close> that the queues and workers use, and the
  three parts of the process they reach: which channels are closed, the next
  address \<^verbatim>\<open>make(chan struct{})\<close> hands out, and the goroutines started by
  \<^verbatim>\<open>queueReset\<close> that still have to send their request.  \<^verbatim>\<open>resetsWG\<close> is the
  count of the wait group.
\<close>

record manager =
  resetQueue :: "resetReq infChan"
  queueDoneCh :: chan
  resetsWG :: int
  deleteQueue :: "deleteReq infChan"
  deleteDoneCh :: chan
  resetsInQueue :: "string \<rightharpoonup> resetReq"
  resetsInProgress :: "string \<rightharpoonup> resetReq"
  closedChans :: "chan set"
  nextChan :: chan
  lateSenders :: "resetReq list"

definition makeChan :: "manager \<Rightarrow> chan \<times> manager" where
  "makeChan m = (nextChan m, m\<lparr>nextChan := Suc (nextChan m)\<rparr>)"

definition closeChan :: "chan \<Rightarrow> manager \<Rightarrow> manager outcome" where
  "closeChan c m =
     (if c \<in> closedChans m then Panic
      else Next (m\<lparr>closedChans := insert c (closedChans m)\<rparr>))"

text \<open>The body of \<^verbatim>\<open>markResetReqInProgress\<close>, run under \<^verbatim>\<open>am.lock\<close>.\<close>

definition markResetReqInProgress ::
  "(string list \<Rightarrow> string) \<Rightarrow> manager \<Rightarrow> resetReq \<Rightarrow> chan option \<times> manager" where
  "markResetReqInProgress join m req =
     (case resetsInProgress m (resetReq_id join req) of
        Some inProgress \<Rightarrow> (Some (doneCh inProgress), m)
      | None \<Rightarrow>
          (None,
           m\<lparr>resetsInQueue := (resetsInQueue m)(resetReq_id join req := None),
             resetsInProgress := (resetsInProgress m)(resetReq_id join req \<mapsto> req)\<rparr>))"

definition clearFromInProgress ::
  "(string list \<Rightarrow> string) \<Rightarrow> manager \<Rightarrow> resetReq \<Rightarrow> manager" where
  "clearFromInProgress join m req =
     m\<lparr>resetsInProgress := (resetsInProgress m)(resetReq_id join req := None),
       resetsWG := resetsWG m - 1\<rparr>"

text \<open>
  The \<^verbatim>\<open>select\<close> of \<^verbatim>\<open>queueReset\<close> and of \<^verbatim>\<open>Delete\<close> takes one of its two
  cases; which one is an input.  \<open>CtxDone e\<close> carries \<^verbatim>\<open>ctx.Err()\<close>.
\<close>

datatype selectCase = SendCase | CtxDone error

text \<open>
  \<^verbatim>\<open>queueReset\<close>.  The results are the Go results \<^verbatim>\<open>(doneCh, err)\<close>; the
  goroutine started in the cancelled case is recorded in \<open>lateSenders\<close>.
\<close>

definition queueReset ::
  "(string list \<Rightarrow> string) \<Rightarrow> manager \<Rightarrow> selectCase \<Rightarrow> resetReq \<Rightarrow>
     ((chan option \<times> error option) \<times> manager) outcome" where
  "queueReset join m sel req =
     (let id = resetReq_id join req
      in case resetsInQueue m id of
           Some req' \<Rightarrow> Next ((Some (doneCh req'), None), m)
         | None \<Rightarrow>
             (let m1 = m\<lparr>resetsWG := resetsWG m + 1,
                         resetsInQueue := (resetsInQueue m)(id \<mapsto> req)\<rparr>
              in case sel of
                   SendCase \<Rightarrow>
                     (case chSend req (resetQueue m1) of
                        Next q \<Rightarrow> Next ((Some (doneCh req), None), m1\<lparr>resetQueue := q\<rparr>)
                      | Blocked \<Rightarrow> Blocked
                      | Panic \<Rightarrow> Panic)
                 | CtxDone e \<Rightarrow>
                     Next ((None, Some e), m1\<lparr>lateSenders := lateSenders m1 @ [req]\<rparr>)))"

text \<open>
  The goroutine \<^verbatim>\<open>go func() { am.resetQueue.In() <- req }()\<close>: the \<open>i\<close>-th
  of those still waiting sends its request.
\<close>

definition lateSend :: "manager \<Rightarrow> nat \<Rightarrow> manager outcome" where
  "lateSend m i =
     (if i < length (lateSenders m) then
        (case chSend (lateSenders m ! i) (resetQueue m) of
           Next q \<Rightarrow>
             Next (m\<lparr>resetQueue := q,
                     lateSenders := take i (lateSenders m) @ drop (Suc i) (lateSenders m)\<rparr>)
         | Blocked \<Rightarrow> Blocked
         | Panic \<Rightarrow> Panic)
      else Blocked)"

definition Pull ::
  "(string list \<Rightarrow> string) \<Rightarrow> manager \<Rightarrow> selectCase \<Rightarrow>
   tlfHandle \<Rightarrow> string \<Rightarrow> string \<Rightarrow> tlfHandle \<Rightarrow> string \<Rightarrow>
     ((chan option \<times> error option) \<times> manager) outcome" where
  "Pull join m sel srcTLF' srcRepo' branchName' dstTLF' dstDir' =
     (case makeChan m of
        (c, m1) \<Rightarrow>
          queueReset join m1 sel
            \<lparr>srcTLF = srcTLF', srcRepo = srcRepo', branchName = branchName',
             dstTLF = dstTLF', dstDir = dstDir', doneCh = c\<rparr>)"

definition Delete ::
  "manager \<Rightarrow> selectCase \<Rightarrow> tlfHandle \<Rightarrow> string \<Rightarrow> string \<Rightarrow> string \<Rightarrow>
     ((chan option \<times> error option) \<times> manager) outcome" where
  "Delete m sel dstTLF' dstDir' repo branchName' =
     (case makeChan m of
        (c, m1) \<Rightarrow>
          (let req = \<lparr>delDstTLF = dstTLF', delDstDir = dstDir', delRepo = repo,
                      delBranchName = branchName', delDoneCh = c\<rparr>
           in case sel of
                SendCase \<Rightarrow>
                  (case chSend req (deleteQueue m1) of
                     Next q \<Rightarrow> Next ((Some (delDoneCh req), None), m1\<lparr>deleteQueue := q\<rparr>)
                   | Blocked \<Rightarrow> Blocked
                   | Panic \<Rightarrow> Panic)
              | CtxDone e \<Rightarrow> Next ((None, Some e), m1)))"

subsection \<open>Clone\<close>

definition cloneFileName :: string where
  "cloneFileName = ''CLONING''"

definition fsMkdirAll :: "config \<Rightarrow> string \<Rightarrow> world \<Rightarrow> error + world" where
  "fsMkdirAll cfg name w =
     (case fails w (MkdirAllC name) of
        Some e \<Rightarrow> Inl e
      | None \<Rightarrow>
          (case entries w name of
             None \<Rightarrow> Inr (w\<lparr>entries := (entries w)(name \<mapsto> Dir (clockNow cfg) [])\<rparr>)
           | Some (Dir _ _) \<Rightarrow> Inr w
           | Some (File _ _) \<Rightarrow> Inl (ErrOther ''not a directory'')))"

definition fsReadDir :: "string \<Rightarrow> world \<Rightarrow> error + (string \<times> string) list" where
  "fsReadDir name w =
     (case fails w (ReadDirC name) of
        Some e \<Rightarrow> Inl e
      | None \<Rightarrow>
          (case entries w name of
             Some (Dir _ cs) \<Rightarrow> Inr cs
           | _ \<Rightarrow> Inl ErrNotExist))"

definition putChild :: "string \<Rightarrow> string \<Rightarrow> (string \<times> string) list \<Rightarrow> (string \<times> string) list" where
  "putChild name txt cs = (name, txt) # filter (\<lambda>p. fst p \<noteq> name) cs"

text \<open>
  \<^verbatim>\<open>makeCloningFile\<close> writes into the directory \<open>dir\<close> that \<^verbatim>\<open>dstRepoFS\<close> is
  rooted at; the deferred close of the file drops its error.
\<close>

definition makeCloningFile ::
  "world \<Rightarrow> string \<Rightarrow> tlfHandle \<Rightarrow> string \<Rightarrow> string \<Rightarrow> error option \<times> world" where
  "makeCloningFile w dir srcTLF' srcRepo' branchName' =
     (case fails w (CreateC (dir @ ''/'' @ cloneFileName)) of
        Some e \<Rightarrow> (Some e, w)
      | None \<Rightarrow>
          (case entries w dir of
             Some (Dir t cs) \<Rightarrow>
               (let cs1 = (if cloneFileName \<in> fst ` set cs then cs
                           else putChild cloneFileName [] cs);
                    w1 = w\<lparr>entries := (entries w)(dir \<mapsto> Dir t cs1)\<rparr>
                in case fails w (WriteC (dir @ ''/'' @ cloneFileName)) of
                     Some e \<Rightarrow> (Some e, w1)
                   | None \<Rightarrow>
                       (None,
                        w\<lparr>entries := (entries w)(dir \<mapsto>
                            Dir t (putChild cloneFileName
                                     (srcTLF' @ ''/'' @ srcRepo' @ '':'' @ branchName') cs1))\<rparr>))
           | _ \<Rightarrow> (Some ErrNotExist, w)))"

text \<open>
  \<^verbatim>\<open>Clone\<close> from taking the lock to the call of \<^verbatim>\<open>queueReset\<close>.  The results
  are \<^verbatim>\<open>(doneCh, err)\<close>, the store and the manager.
\<close>

definition cloneLocked ::
  "(string list \<Rightarrow> string) \<Rightarrow> config \<Rightarrow> world \<Rightarrow> manager \<Rightarrow> selectCase \<Rightarrow>
   tlfHandle \<Rightarrow> string \<Rightarrow> string \<Rightarrow> tlfHandle \<Rightarrow> string \<Rightarrow>
     ((chan option \<times> error option) \<times> world \<times> manager) outcome" where
  "cloneLocked join cfg w m sel srcTLF' srcRepo' branchName' dstTLF' dstDir' =
     (case callOnly (LockC (autogitLockName srcRepo')) w of
        Some e \<Rightarrow> Next ((None, Some e), w, m)
      | None \<Rightarrow>
     (case fsMkdirAll cfg srcRepo' w of
        Inl e \<Rightarrow> Next ((None, Some e), w, m)
      | Inr w1 \<Rightarrow>
     (case fsChroot srcRepo' w1 of
        Some e \<Rightarrow> Next ((None, Some e), w1, m)
      | None \<Rightarrow>
     (case fsReadDir srcRepo' w1 of
        Inl e \<Rightarrow> Next ((None, Some e), w1, m)
      | Inr fis \<Rightarrow>
     (case (if length fis = 0 then
              (case makeCloningFile w1 srcRepo' srcTLF' srcRepo' branchName' of
                 (Some e, w2) \<Rightarrow> (Some e, w2)
               | (None, w2) \<Rightarrow> (callOnly (UnlockC (autogitLockName srcRepo')) w2, w2))
            else (None, w1)) of
        (Some e, w2) \<Rightarrow> Next ((None, Some e), w2, m)
      | (None, w2) \<Rightarrow>
          (case makeChan m of
             (c, m1) \<Rightarrow>
               (case queueReset join m1 sel
                       \<lparr>srcTLF = srcTLF', srcRepo = srcRepo', branchName = branchName',
                        dstTLF = dstTLF', dstDir = dstDir', doneCh = c\<rparr> of
                  Next (res, m2) \<Rightarrow> Next (res, w2, m2)
                | Blocked \<Rightarrow> Blocked
                | Panic \<Rightarrow> Panic)))))))"

definition Clone ::
  "(string list \<Rightarrow> string) \<Rightarrow> config \<Rightarrow> world \<Rightarrow> manager \<Rightarrow> selectCase \<Rightarrow>
   tlfHandle \<Rightarrow> string \<Rightarrow> string \<Rightarrow> tlfHandle \<Rightarrow> string \<Rightarrow>
     ((chan option \<times> error option) \<times> world \<times> manager) outcome" where
  "Clone join cfg w m sel srcTLF' srcRepo' branchName' dstTLF' dstDir' =
     (case callOnly NewFSC w of
        Some e \<Rightarrow> Next ((None, Some e), w, m)
      | None \<Rightarrow>
          (case fsCreate cfg (autogitLockName srcRepo') w of
             Inl e \<Rightarrow> Next ((None, Some e), w, m)
           | Inr w0 \<Rightarrow>
               (case cloneLocked join cfg w0 m sel
                       srcTLF' srcRepo' branchName' dstTLF' dstDir' of
                  Next ((ch, err), w1, m1) \<Rightarrow>
                    (let closeErr = callOnly (CloseC (autogitLockName srcRepo')) w1
                     in Next ((ch, (if err = None then closeErr else err)), w1, m1))
                | Blocked \<Rightarrow> Blocked
                | Panic \<Rightarrow> Panic)))"

section \<open>Workers, loops and shutdown\<close>

text \<open>
  The goroutines of the manager as a transition system.  A critical section
  under \<^verbatim>\<open>am.lock\<close> and a channel operation are one step each.  A worker of
  \<^verbatim>\<open>resetWorker\<close> is at the head of its \<^verbatim>\<open>range\<close> loop (\<open>WIdle\<close>), about to
  call \<^verbatim>\<open>markResetReqInProgress\<close> (\<open>WMark\<close>), blocked on \<^verbatim>\<open><-waitCh\<close>
  (\<open>WWait\<close>), inside \<^verbatim>\<open>doReset\<close> (\<open>WRun\<close>), about to call
  \<^verbatim>\<open>clearFromInProgress\<close> (\<open>WClear\<close>), about to close the request's channel
  (\<open>WClose\<close>), or has left the loop and run \<^verbatim>\<open>wg.Done()\<close> (\<open>WExit\<close>).
\<close>

datatype wstate =
    WIdle | WMark resetReq | WWait resetReq chan | WRun resetReq
  | WClear resetReq | WClose resetReq | WExit

datatype wact =
    Dequeue | Mark | Wake | JobReturn "error option" | Clear | CloseDone | ExitLoop

fun resetWorker ::
  "(string list \<Rightarrow> string) \<Rightarrow> manager \<Rightarrow> wstate \<Rightarrow> wact \<Rightarrow> (manager \<times> wstate) outcome" where
  "resetWorker join m WIdle Dequeue =
     (case items (resetQueue m) of
        [] \<Rightarrow> Blocked
      | req # rest \<Rightarrow> Next (m\<lparr>resetQueue := (resetQueue m)\<lparr>items := rest\<rparr>\<rparr>, WMark req))"
| "resetWorker join m WIdle ExitLoop =
     (if items (resetQueue m) = [] \<and> inClosed (resetQueue m) then Next (m, WExit)
      else Blocked)"
| "resetWorker join m (WMark req) Mark =
     (case markResetReqInProgress join m req of
        (Some waitCh, m') \<Rightarrow> Next (m', WWait req waitCh)
      | (None, m') \<Rightarrow> Next (m', WRun req))"
| "resetWorker join m (WWait req waitCh) Wake =
     (if waitCh \<in> closedChans m then Next (m, WMark req) else Blocked)"
| "resetWorker join m (WRun req) (JobReturn err) = Next (m, WClear req)"
| "resetWorker join m (WClear req) Clear =
     Next (clearFromInProgress join m req, WClose req)"
| "resetWorker join m (WClose req) CloseDone =
     (case closeChan (doneCh req) m of
        Next m' \<Rightarrow> Next (m', WIdle)
      | Blocked \<Rightarrow> Blocked
      | Panic \<Rightarrow> Panic)"
| "resetWorker join m _ _ = Blocked"

text \<open>
  \<^verbatim>\<open>deleteLoop\<close>: at the head of its loop, inside \<^verbatim>\<open>doDelete\<close>, about to close
  the request's channel, or past \<^verbatim>\<open>close(am.deleteDoneCh)\<close>.
\<close>

datatype dstate = DIdle | DRun deleteReq | DClose deleteReq | DExit

datatype dact = DDequeue | DJobReturn "error option" | DCloseDone | DExitLoop

fun deleteLoop :: "manager \<Rightarrow> dstate \<Rightarrow> dact \<Rightarrow> (manager \<times> dstate) outcome" where
  "deleteLoop m DIdle DDequeue =
     (case items (deleteQueue m) of
        [] \<Rightarrow> Blocked
      | req # rest \<Rightarrow> Next (m\<lparr>deleteQueue := (deleteQueue m)\<lparr>items := rest\<rparr>\<rparr>, DRun req))"
| "deleteLoop m (DRun req) (DJobReturn err) = Next (m, DClose req)"
| "deleteLoop m (DClose req) DCloseDone =
     (case closeChan (delDoneCh req) m of
        Next m' \<Rightarrow> Next (m', DIdle)
      | Blocked \<Rightarrow> Blocked
      | Panic \<Rightarrow> Panic)"
| "deleteLoop m DIdle DExitLoop =
     (if items (deleteQueue m) = [] \<and> inClosed (deleteQueue m) then
        (case closeChan (deleteDoneCh m) m of
           Next m' \<Rightarrow> Next (m', DExit)
         | Blocked \<Rightarrow> Blocked
         | Panic \<Rightarrow> Panic)
      else Blocked)"
| "deleteLoop m _ _ = Blocked"

text \<open>
  \<^verbatim>\<open>Shutdown\<close> by the statement it is about to run; \<open>SNotCalled\<close> before the
  call, \<open>SReturned\<close> after it.
\<close>

datatype sstate = SNotCalled | SCloseDelete | SWaitQueueDone | SWaitDeleteDone | SReturned

fun Shutdown :: "manager \<Rightarrow> sstate \<Rightarrow> (manager \<times> sstate) outcome" where
  "Shutdown m SNotCalled =
     (case chClose (resetQueue m) of
        Next q \<Rightarrow> Next (m\<lparr>resetQueue := q\<rparr>, SCloseDelete)
      | Blocked \<Rightarrow> Blocked
      | Panic \<Rightarrow> Panic)"
| "Shutdown m SCloseDelete =
     (case chClose (deleteQueue m) of
        Next q \<Rightarrow> Next (m\<lparr>deleteQueue := q\<rparr>, SWaitQueueDone)
      | Blocked \<Rightarrow> Blocked
      | Panic \<Rightarrow> Panic)"
| "Shutdown m SWaitQueueDone =
     (if queueDoneCh m \<in> closedChans m then Next (m, SWaitDeleteDone) else Blocked)"
| "Shutdown m SWaitDeleteDone =
     (if deleteDoneCh m \<in> closedChans m then Next (m, SReturned) else Blocked)"
| "Shutdown m SReturned = Blocked"

text \<open>
  The whole process: the manager, the workers started by \<^verbatim>\<open>resetLoop\<close>, whether
  \<^verbatim>\<open>resetLoop\<close> is past its \<^verbatim>\<open>wg.Wait()\<close>, the delete loop, and the caller of
  \<^verbatim>\<open>Shutdown\<close>.
\<close>

record sys =
  mgr :: manager
  workers :: "wstate list"
  resetLoopDone :: bool
  deleteSt :: dstate
  shutdownSt :: sstate

datatype action =
    APull selectCase tlfHandle string string tlfHandle string
  | ADelete selectCase tlfHandle string string string
  | ALateSend nat
  | AWorker nat wact
  | AResetLoop
  | ADeleteLoop dact
  | AShutdown

text \<open>
  \<^verbatim>\<open>NewAutogitManager\<close>: two fresh channels, empty queues and maps, and
  \<open>numWorkers\<close> workers at the head of their loop.
\<close>

definition NewAutogitManager :: "nat \<Rightarrow> sys" where
  "NewAutogitManager numWorkers =
     \<lparr>mgr = \<lparr>resetQueue = \<lparr>items = [], inClosed = False\<rparr>,
             queueDoneCh = 0,
             resetsWG = 0,
             deleteQueue = \<lparr>items = [], inClosed = False\<rparr>,
             deleteDoneCh = 1,
             resetsInQueue = (\<lambda>id. None),
             resetsInProgress = (\<lambda>id. None),
             closedChans = {},
             nextChan = 2,
             lateSenders = []\<rparr>,
      workers = replicate numWorkers WIdle,
      resetLoopDone = False,
      deleteSt = DIdle,
      shutdownSt = SNotCalled\<rparr>"

text \<open>
  \<^verbatim>\<open>resetLoop\<close> after starting the workers: \<^verbatim>\<open>wg.Wait()\<close> returns when every
  worker has left its loop, then \<^verbatim>\<open>queueDoneCh\<close> is closed.
\<close>

definition resetLoop :: "sys \<Rightarrow> sys outcome" where
  "resetLoop s =
     (if \<not> resetLoopDone s \<and> list_all (\<lambda>st. st = WExit) (workers s) then
        (case closeChan (queueDoneCh (mgr s)) (mgr s) of
           Next m' \<Rightarrow> Next (s\<lparr>mgr := m', resetLoopDone := True\<rparr>)
         | Blocked \<Rightarrow> Blocked
         | Panic \<Rightarrow> Panic)
      else Blocked)"

fun step :: "(string list \<Rightarrow> string) \<Rightarrow> sys \<Rightarrow> action \<Rightarrow> sys outcome" where
  "step join s (APull sel srcTLF' srcRepo' branchName' dstTLF' dstDir') =
     (case Pull join (mgr s) sel srcTLF' srcRepo' branchName' dstTLF' dstDir' of
        Next (res, m') \<Rightarrow> Next (s\<lparr>mgr := m'\<rparr>)
      | Blocked \<Rightarrow> Blocked
      | Panic \<Rightarrow> Panic)"
| "step join s (ADelete sel dstTLF' dstDir' repo branchName') =
     (case Delete (mgr s) sel dstTLF' dstDir' repo branchName' of
        Next (res, m') \<Rightarrow> Next (s\<lparr>mgr := m'\<rparr>)
      | Blocked \<Rightarrow> Blocked
      | Panic \<Rightarrow> Panic)"
| "step join s (ALateSend i) =
     (case lateSend (mgr s) i of
        Next m' \<Rightarrow> Next (s\<lparr>mgr := m'\<rparr>)
      | Blocked \<Rightarrow> Blocked
      | Panic \<Rightarrow> Panic)"
| "step join s (AWorker i a) =
     (if i < length (workers s) then
        (case resetWorker join (mgr s) (workers s ! i) a of
           Next (m', st') \<Rightarrow> Next (s\<lparr>mgr := m', workers := (workers s)[i := st']\<rparr>)
         | Blocked \<Rightarrow> Blocked
         | Panic \<Rightarrow> Panic)
      else Blocked)"
| "step join s AResetLoop = resetLoop s"
| "step join s (ADeleteLoop a) =
     (case deleteLoop (mgr s) (deleteSt s) a of
        Next (m', st') \<Rightarrow> Next (s\<lparr>mgr := m', deleteSt := st'\<rparr>)
      | Blocked \<Rightarrow> Blocked
      | Panic \<Rightarrow> Panic)"
| "step join s AShutdown =
     (case Shutdown (mgr s) (shutdownSt s) of
        Next (m', st') \<Rightarrow> Next (s\<lparr>mgr := m', shutdownSt := st'\<rparr>)
      | Blocked \<Rightarrow> Blocked
      | Panic \<Rightarrow> Panic)"

text \<open>A schedule is a list of actions; it runs as long as each step goes on.\<close>

fun run :: "(string list \<Rightarrow> string) \<Rightarrow> sys \<Rightarrow> action list \<Rightarrow> sys outcome" where
  "run join s [] = Next s"
| "run join s (a # as) =
     (case step join s a of
        Next s' \<Rightarrow> run join s' as
      | Blocked \<Rightarrow> Blocked
      | Panic \<Rightarrow> Panic)"

section \<open>Predicates used to state the properties\<close>

text \<open>No call fails.\<close>

definition noFaults :: "call \<Rightarrow> error option" where
  "noFaults c = None"

fun fileOrAbsent :: "node option \<Rightarrow> bool" where
  "fileOrAbsent None = True"
| "fileOrAbsent (Some (File t c)) = True"
| "fileOrAbsent (Some (Dir t cs)) = False"

text \<open>The store once \<^verbatim>\<open>Create\<close> has opened the lock file of \<open>repo\<close>.\<close>

definition withLock :: "config \<Rightarrow> string \<Rightarrow> world \<Rightarrow> world" where
  "withLock cfg repo w =
     (case entries w (autogitLockName repo) of
        Some n \<Rightarrow> w
      | None \<Rightarrow> w\<lparr>entries := (entries w)(autogitLockName repo \<mapsto> File (clockNow cfg) [])\<rparr>)"

definition lastErrNode :: "config \<Rightarrow> error option \<Rightarrow> node option" where
  "lastErrNode cfg workErr =
     (case workErr of None \<Rightarrow> None | Some e \<Rightarrow> Some (File (clockNow cfg) (errorText e)))"

text \<open>
  The request whose in-progress claim a worker holds: from the successful
  \<^verbatim>\<open>markResetReqInProgress\<close> to \<^verbatim>\<open>clearFromInProgress\<close>.
\<close>

fun holds :: "wstate \<Rightarrow> resetReq option" where
  "holds (WRun req) = Some req"
| "holds (WClear req) = Some req"
| "holds _ = None"

text \<open>
  Every holder's request is the one in the in-progress map under its identity,
  and two different workers never hold requests of the same identity.
\<close>

definition claimInv :: "(string list \<Rightarrow> string) \<Rightarrow> sys \<Rightarrow> bool" where
  "claimInv join s =
     ((\<forall>i r. i < length (workers s) \<and> holds (workers s ! i) = Some r \<longrightarrow>
         resetsInProgress (mgr s) (resetReq_id join r) = Some r) \<and>
      (\<forall>i j r1 r2. i < length (workers s) \<and> j < length (workers s) \<and> i \<noteq> j \<and>
         holds (workers s ! i) = Some r1 \<and> holds (workers s ! j) = Some r2 \<longrightarrow>
         resetReq_id join r1 \<noteq> resetReq_id join r2))"

text \<open>The request a worker has taken from the queue and not yet retired.\<close>

fun wreq :: "wstate \<Rightarrow> resetReq option" where
  "wreq WIdle = None"
| "wreq (WMark req) = Some req"
| "wreq (WWait req waitCh) = Some req"
| "wreq (WRun req) = Some req"
| "wreq (WClear req) = Some req"
| "wreq (WClose req) = Some req"
| "wreq WExit = None"

fun dreqOf :: "dstate \<Rightarrow> deleteReq option" where
  "dreqOf DIdle = None"
| "dreqOf (DRun req) = Some req"
| "dreqOf (DClose req) = Some req"
| "dreqOf DExit = None"

text \<open>
  The channels of the requests that are on their way: in a queue, with a
  sending goroutine, or with a worker.
\<close>

definition wown :: "wstate \<Rightarrow> chan multiset" where
  "wown st = (case wreq st of None \<Rightarrow> {#} | Some req \<Rightarrow> {#doneCh req#})"

definition down :: "dstate \<Rightarrow> chan multiset" where
  "down st = (case dreqOf st of None \<Rightarrow> {#} | Some req \<Rightarrow> {#delDoneCh req#})"

definition ownedChans :: "sys \<Rightarrow> chan multiset" where
  "ownedChans s =
     mset (map doneCh (items (resetQueue (mgr s)))) +
     mset (map doneCh (lateSenders (mgr s))) +
     sum_list (map wown (workers s)) +
     mset (map delDoneCh (items (deleteQueue (mgr s)))) +
     down (deleteSt s)"

text \<open>
  The channel discipline: the two channels of the manager are the first two
  made; every channel on its way was made later, is not closed, and belongs to
  one request only.
\<close>

definition chanInv :: "sys \<Rightarrow> bool" where
  "chanInv s =
     (queueDoneCh (mgr s) = 0 \<and> deleteDoneCh (mgr s) = 1 \<and> 2 \<le> nextChan (mgr s) \<and>
      (\<forall>c. c \<in> closedChans (mgr s) \<longrightarrow> c < nextChan (mgr s)) \<and>
      (\<forall>c. c \<in># ownedChans s \<longrightarrow>
         2 \<le> c \<and> c < nextChan (mgr s) \<and> c \<notin> closedChans (mgr s) \<and>
         count (ownedChans s) c = 1))"

text \<open>How far \<^verbatim>\<open>Shutdown\<close> and the loops are, against the queues and channels.\<close>

definition flagInv :: "sys \<Rightarrow> bool" where
  "flagInv s =
     ((inClosed (resetQueue (mgr s)) \<longleftrightarrow> shutdownSt s \<noteq> SNotCalled) \<and>
      (inClosed (deleteQueue (mgr s)) \<longleftrightarrow>
         shutdownSt s \<noteq> SNotCalled \<and> shutdownSt s \<noteq> SCloseDelete) \<and>
      (shutdownSt s = SWaitDeleteDone \<or> shutdownSt s = SReturned \<longrightarrow>
         queueDoneCh (mgr s) \<in> closedChans (mgr s)) \<and>
      (shutdownSt s = SReturned \<longrightarrow> deleteDoneCh (mgr s) \<in> closedChans (mgr s)) \<and>
      (queueDoneCh (mgr s) \<in> closedChans (mgr s) \<longleftrightarrow> resetLoopDone s) \<and>
      (resetLoopDone s \<longrightarrow> list_all (\<lambda>st. st = WExit) (workers s)) \<and>
      (deleteDoneCh (mgr s) \<in> closedChans (mgr s) \<longleftrightarrow> deleteSt s = DExit) \<and>
      (WExit \<in> set (workers s) \<longrightarrow>
         inClosed (resetQueue (mgr s)) \<and> items (resetQueue (mgr s)) = []) \<and>
      (deleteSt s = DExit \<longrightarrow>
         inClosed (deleteQueue (mgr s)) \<and> items (deleteQueue (mgr s)) = []))"



section \<open>Stores, requests and schedules to instantiate the properties with\<close>

definition emptyWorld :: world where
  "emptyWorld = \<lparr>entries = (\<lambda>name. None), fails = noFaults\<rparr>"

definition putEntry :: "string \<Rightarrow> node \<Rightarrow> world \<Rightarrow> world" where
  "putEntry name n w = w\<lparr>entries := (entries w)(name \<mapsto> n)\<rparr>"

definition failing :: "call \<Rightarrow> error \<Rightarrow> world \<Rightarrow> world" where
  "failing c e w = w\<lparr>fails := (fails w)(c := Some e)\<rparr>"

text \<open>A clock at two hours, seven nanoseconds ahead of the server.\<close>

definition cfgA :: config where
  "cfgA = \<lparr>clockNow = 7200000000000, serverOffset = Some 7\<rparr>"

definition cfgNoOffset :: config where
  "cfgNoOffset = \<lparr>clockNow = 7200000000000, serverOffset = None\<rparr>"

text \<open>The same clock with the least duration as its offset.\<close>

definition cfgLeastOffset :: config where
  "cfgLeastOffset = \<lparr>clockNow = 7200000000000, serverOffset = Some (- (2 ^ 63))\<rparr>"

text \<open>A store whose working marker for \<open>proj\<close> was stamped at time \<open>t\<close>.\<close>

definition markedWorld :: "time \<Rightarrow> world" where
  "markedWorld t = putEntry (autogitWorkingName ''proj'') (File t []) emptyWorld"

definition failedJobWorld :: world where
  "failedJobWorld =
     putEntry (autogitLastErrName ''proj'') (File 3 ''old failure'') (markedWorld 5)"

text \<open>
  A store with the last-error marker of an earlier failure and no working
  marker: the lease is not held.
\<close>

definition staleErrWorld :: world where
  "staleErrWorld =
     putEntry (autogitLastErrName ''proj'') (File 3 ''old failure'') emptyWorld"

text \<open>
  A store with the destination directory of \<open>proj\<close> in place, in which
  \<^verbatim>\<open>Reset\<close> fails and nothing else does.
\<close>

definition resetFailsWorld :: world where
  "resetFailsWorld =
     failing ResetC (ErrOther ''no such branch'') (putEntry ''proj'' (Dir 1 []) emptyWorld)"

text \<open>A store in which the single-op configuration cannot be made.\<close>

definition noConfigWorld :: world where
  "noConfigWorld = failing GetNewConfigC (ErrOther ''no config'') emptyWorld"

definition noDestinationWorld :: world where
  "noDestinationWorld = failing NewFSC ErrNotExist emptyWorld"

text \<open>The store after a first \<^verbatim>\<open>Clone\<close> of \<open>proj\<close> into the empty destination.\<close>

definition clonedWorld :: world where
  "clonedWorld =
     putEntry ''proj''
       (Dir 7200000000000 [(''CLONING'', ''/keybase/team/teamA/proj:master'')])
       (putEntry (autogitLockName ''proj'') (File 7200000000000 []) emptyWorld)"

text \<open>
  A function to put in the place of \<open>join\<close> at concrete inputs: the elements
  separated by slashes, which is what \<^verbatim>\<open>path.Join\<close> returns for non-empty
  elements that are already clean.
\<close>

fun slashJoin :: "string list \<Rightarrow> string" where
  "slashJoin [] = []"
| "slashJoin [x] = x"
| "slashJoin (x # y # ys) = x @ ''/'' @ slashJoin (y # ys)"

definition manager0 :: manager where
  "manager0 = mgr (NewAutogitManager 2)"

text \<open>Two requests for the same destination that differ in source and branch.\<close>

definition reqA :: resetReq where
  "reqA = \<lparr>srcTLF = ''/keybase/team/teamA'', srcRepo = ''proj'', branchName = ''master'',
           dstTLF = ''/keybase/team/teamB'', dstDir = ''mirror'', doneCh = 2\<rparr>"

definition reqB :: resetReq where
  "reqB = \<lparr>srcTLF = ''/keybase/team/teamC'', srcRepo = ''proj'', branchName = ''dev'',
           dstTLF = ''/keybase/team/teamB'', dstDir = ''mirror'', doneCh = 3\<rparr>"

definition reqC :: resetReq where
  "reqC = \<lparr>srcTLF = ''/keybase/team/teamA'', srcRepo = ''other'', branchName = ''master'',
           dstTLF = ''/keybase/team/teamB'', dstDir = ''mirror'', doneCh = 4\<rparr>"

definition delReqA :: deleteReq where
  "delReqA = \<lparr>delDstTLF = ''/keybase/team/teamB'', delDstDir = ''mirror'',
              delRepo = ''proj'', delBranchName = ''master'', delDoneCh = 2\<rparr>"

text \<open>The manager once \<open>reqA\<close> is registered and in the queue.\<close>

definition managerA :: manager where
  "managerA = manager0\<lparr>resetQueue := \<lparr>items = [reqA], inClosed = False\<rparr>,
                       resetsWG := 1,
                       resetsInQueue := (resetsInQueue manager0)
                         (''/keybase/team/teamB/mirror/proj'' \<mapsto> reqA)\<rparr>"

text \<open>The manager once the submission of \<open>reqA\<close> was cancelled at the push.\<close>

definition managerLate :: manager where
  "managerLate = manager0\<lparr>resetsWG := 1,
                       resetsInQueue := (resetsInQueue manager0)
                         (''/keybase/team/teamB/mirror/proj'' \<mapsto> reqA),
                       lateSenders := [reqA]\<rparr>"

text \<open>
  Three workers; \<open>reqA\<close> is submitted, dequeued and claimed by worker 0; then
  \<open>reqB\<close>, of the same identity, is submitted and dequeued by worker 1, which
  finds the identity taken; then \<open>reqC\<close>, of another identity, is submitted,
  dequeued and claimed by worker 2.
\<close>

definition busySchedule :: "action list" where
  "busySchedule =
     [APull SendCase ''/keybase/team/teamA'' ''proj'' ''master'' ''/keybase/team/teamB'' ''mirror'',
      AWorker 0 Dequeue, AWorker 0 Mark,
      APull SendCase ''/keybase/team/teamC'' ''proj'' ''dev'' ''/keybase/team/teamB'' ''mirror'',
      AWorker 1 Dequeue, AWorker 1 Mark,
      APull SendCase ''/keybase/team/teamA'' ''other'' ''master'' ''/keybase/team/teamB'' ''mirror'',
      AWorker 2 Dequeue, AWorker 2 Mark]"


section \<open>Properties of the lease\<close>

subsection \<open>The marker names\<close>

lemma names_distinct:
  "autogitLockName r \<noteq> autogitWorkingName r"
  "autogitLockName r \<noteq> autogitLastErrName r"
  "autogitWorkingName r \<noteq> autogitLastErrName r"
  "autogitWorkingName r \<noteq> autogitLockName r"
  "autogitLastErrName r \<noteq> autogitLockName r"
  "autogitLastErrName r \<noteq> autogitWorkingName r"
  by (simp_all add: autogitLockName_def autogitWorkingName_def autogitLastErrName_def)

lemma lockName_not_repo: "autogitLockName r \<noteq> r" "r \<noteq> autogitLockName r"
proof -
  have "length (autogitLockName r) \<noteq> length r"
    by (simp add: autogitLockName_def)
  then show "autogitLockName r \<noteq> r" "r \<noteq> autogitLockName r"
    by auto
qed

lemma repo_not_marker:
  "autogitWorkingName r \<noteq> r" "r \<noteq> autogitWorkingName r"
  "autogitLastErrName r \<noteq> r" "r \<noteq> autogitLastErrName r"
proof -
  have "length (autogitWorkingName r) \<noteq> length r" "length (autogitLastErrName r) \<noteq> length r"
    by (simp_all add: autogitWorkingName_def autogitLastErrName_def)
  then show "autogitWorkingName r \<noteq> r" "r \<noteq> autogitWorkingName r"
    "autogitLastErrName r \<noteq> r" "r \<noteq> autogitLastErrName r"
    by auto
qed

lemma withLock_simps:
  "fails (withLock cfg repo w) = fails w"
  "entries (withLock cfg repo w) (autogitWorkingName repo) = entries w (autogitWorkingName repo)"
  "entries (withLock cfg repo w) (autogitLastErrName repo) = entries w (autogitLastErrName repo)"
  by (simp_all add: withLock_def names_distinct split: option.splits)

lemma withLock_repo: "entries (withLock cfg r w) r = entries w r"
  by (simp add: withLock_def lockName_not_repo split: option.splits)

subsection \<open>Acquiring\<close>

lemma fsCreate_lock_r:
  "fails w = noFaults(ResetC := r) \<Longrightarrow> fsCreate cfg (autogitLockName repo) w = Inr (withLock cfg repo w)"
  by (simp add: fsCreate_def noFaults_def withLock_def split: option.splits)

lemma canWorkLocked_absent_r:
  assumes "fails w = noFaults(ResetC := r)" and "entries w (autogitWorkingName repo) = None"
  shows "canWorkLocked cfg w repo =
           ((True, None),
            w\<lparr>entries := (entries w)(autogitWorkingName repo \<mapsto> File (commonTime cfg) [])\<rparr>)"
  using assms
  by (simp add: canWorkLocked_def callOnly_def fsStat_def fsCreate_def fsChtimes_def
      noFaults_def setModTime_def Let_def)

lemma canWorkLocked_present_r:
  assumes "fails w = noFaults(ResetC := r)" and "entries w (autogitWorkingName repo) = Some n"
  shows "canWorkLocked cfg w repo =
           (if commonTime cfg < modTime n + workTimeLimit then ((False, None), w)
            else ((True, None),
              w\<lparr>entries := (entries w)(autogitWorkingName repo \<mapsto> setModTime (commonTime cfg) n)\<rparr>))"
  using assms
  by (simp add: canWorkLocked_def callOnly_def fsStat_def fsChtimes_def noFaults_def Let_def)

lemma canWorkOnRepo_absent_r:
  assumes "fails w = noFaults(ResetC := r)" and "entries w (autogitWorkingName repo) = None"
  shows "canWorkOnRepo cfg w repo =
           ((True, None),
            (withLock cfg repo w)\<lparr>entries := (entries (withLock cfg repo w))
               (autogitWorkingName repo \<mapsto> File (commonTime cfg) [])\<rparr>)"
  using assms
  by (simp add: canWorkOnRepo_def fsCreate_lock_r canWorkLocked_absent_r withLock_simps
      callOnly_def noFaults_def)

lemma canWorkOnRepo_present_r:
  assumes "fails w = noFaults(ResetC := r)" and "entries w (autogitWorkingName repo) = Some n"
  shows "canWorkOnRepo cfg w repo =
           (if commonTime cfg < modTime n + workTimeLimit
            then ((False, None), withLock cfg repo w)
            else ((True, None),
              (withLock cfg repo w)\<lparr>entries := (entries (withLock cfg repo w))
                 (autogitWorkingName repo \<mapsto> setModTime (commonTime cfg) n)\<rparr>))"
  using assms
  by (simp add: canWorkOnRepo_def fsCreate_lock_r canWorkLocked_present_r withLock_simps
      callOnly_def noFaults_def)

lemma noFaults_upd: "noFaults(ResetC := None) = noFaults"
  by (simp add: noFaults_def fun_upd_idem)

lemmas fsCreate_lock = fsCreate_lock_r[where r=None, unfolded noFaults_upd]
lemmas canWorkLocked_absent = canWorkLocked_absent_r[where r=None, unfolded noFaults_upd]
lemmas canWorkLocked_present = canWorkLocked_present_r[where r=None, unfolded noFaults_upd]
lemmas canWorkOnRepo_absent = canWorkOnRepo_absent_r[where r=None, unfolded noFaults_upd]
lemmas canWorkOnRepo_present = canWorkOnRepo_present_r[where r=None, unfolded noFaults_upd]

text \<open>The negation of a duration: the least duration is its own negative.\<close>

lemma sint_minus_duration:
  fixes x :: duration
  assumes "sint x \<noteq> - (2 ^ 63)"
  shows "sint (- x) = - sint x"
proof -
  have r: "- (2 ^ 63) \<le> sint x" "sint x < 2 ^ 63"
    using sint_ge[of x] sint_lt[of x] by simp_all
  have "sint (- x) = signed_take_bit 63 (- sint x)"
    by (simp add: sint_word_ariths sint_sbintrunc')
  also have "\<dots> = - sint x"
    by (rule signed_take_bit_int_eq_self) (use r assms in simp_all)
  finally show ?thesis .
qed

lemma sint_minus_least_duration:
  fixes x :: duration
  assumes "sint x = - (2 ^ 63)"
  shows "sint (- x) = - (2 ^ 63)"
proof -
  have "sint (- x) = signed_take_bit 63 (- sint x)"
    by (simp add: sint_word_ariths sint_sbintrunc')
  also have "\<dots> = - (2 ^ 63)"
    unfolding assms by simp
  finally show ?thesis .
qed

text \<open>
  C1.  While no call into the store fails, an acquire attempt behaves as
  follows.  With no working marker, the marker is created, stamped with the
  common time, and the lease is granted.  With a marker whose modification time
  plus \<open>workTimeLimit\<close> is after the common time, the lease is denied with no
  error and the marker is left as it is.  With a marker that is not so, the
  marker is stamped with the common time and the lease is granted.  The common
  time is the local clock itself when no offset is known, and the local clock
  adjusted by the server offset otherwise: the local clock less the offset for
  every offset but the least duration, whose negation in 64 bits is itself, so
  that the common time is then \<open>2 ^ 63\<close> nanoseconds before the local clock.
\<close>

theorem canWorkOnRepo_lease:
  assumes "fails w = noFaults"
  shows
   "(entries w (autogitWorkingName repo) = None \<longrightarrow>
       fst (canWorkOnRepo cfg w repo) = (True, None) \<and>
       entries (snd (canWorkOnRepo cfg w repo)) (autogitWorkingName repo)
         = Some (File (commonTime cfg) [])) \<and>
    (\<forall>n. entries w (autogitWorkingName repo) = Some n \<and>
          commonTime cfg < modTime n + workTimeLimit \<longrightarrow>
       fst (canWorkOnRepo cfg w repo) = (False, None) \<and>
       entries (snd (canWorkOnRepo cfg w repo)) (autogitWorkingName repo) = Some n) \<and>
    (\<forall>n. entries w (autogitWorkingName repo) = Some n \<and>
          \<not> commonTime cfg < modTime n + workTimeLimit \<longrightarrow>
       fst (canWorkOnRepo cfg w repo) = (True, None) \<and>
       entries (snd (canWorkOnRepo cfg w repo)) (autogitWorkingName repo)
         = Some (setModTime (commonTime cfg) n)) \<and>
    (serverOffset cfg = None \<longrightarrow> commonTime cfg = clockNow cfg) \<and>
    (\<forall>off. serverOffset cfg = Some off \<and> sint off \<noteq> - (2 ^ 63) \<longrightarrow>
       commonTime cfg = clockNow cfg - sint off) \<and>
    (\<forall>off. serverOffset cfg = Some off \<and> sint off = - (2 ^ 63) \<longrightarrow>
       commonTime cfg = clockNow cfg - 2 ^ 63)"
proof -
  have a: "entries w (autogitWorkingName repo) = None \<Longrightarrow>
       fst (canWorkOnRepo cfg w repo) = (True, None) \<and>
       entries (snd (canWorkOnRepo cfg w repo)) (autogitWorkingName repo)
         = Some (File (commonTime cfg) [])"
    using canWorkOnRepo_absent[OF assms, of repo cfg] by simp
  have b: "\<And>n. entries w (autogitWorkingName repo) = Some n \<Longrightarrow>
       commonTime cfg < modTime n + workTimeLimit \<Longrightarrow>
       fst (canWorkOnRepo cfg w repo) = (False, None) \<and>
       entries (snd (canWorkOnRepo cfg w repo)) (autogitWorkingName repo) = Some n"
    using canWorkOnRepo_present[OF assms, of repo _ cfg] by (simp add: withLock_simps)
  have c: "\<And>n. entries w (autogitWorkingName repo) = Some n \<Longrightarrow>
       \<not> commonTime cfg < modTime n + workTimeLimit \<Longrightarrow>
       fst (canWorkOnRepo cfg w repo) = (True, None) \<and>
       entries (snd (canWorkOnRepo cfg w repo)) (autogitWorkingName repo)
         = Some (setModTime (commonTime cfg) n)"
    using canWorkOnRepo_present[OF assms, of repo _ cfg] by simp
  have d: "serverOffset cfg = None \<Longrightarrow> commonTime cfg = clockNow cfg"
    by (simp add: commonTime_def)
  have e: "\<And>off. serverOffset cfg = Some off \<Longrightarrow> sint off \<noteq> - (2 ^ 63) \<Longrightarrow>
       commonTime cfg = clockNow cfg - sint off"
    by (simp add: commonTime_def sint_minus_duration)
  have f: "\<And>off. serverOffset cfg = Some off \<Longrightarrow> sint off = - (2 ^ 63) \<Longrightarrow>
       commonTime cfg = clockNow cfg - 2 ^ 63"
    by (simp add: commonTime_def sint_minus_least_duration)
  show ?thesis using a b c d e f by blast
qed

theorem canWorkOnRepo_lease_witness:
  "fails emptyWorld = noFaults \<and>
   entries emptyWorld (autogitWorkingName ''proj'') = None \<and>
   fst (canWorkOnRepo cfgA emptyWorld ''proj'') = (True, None) \<and>
   entries (snd (canWorkOnRepo cfgA emptyWorld ''proj'')) (autogitWorkingName ''proj'')
     = Some (File 7199999999993 []) \<and>
   fails (markedWorld 7199999990000) = noFaults \<and>
   entries (markedWorld 7199999990000) (autogitWorkingName ''proj'')
     = Some (File 7199999990000 []) \<and>
   commonTime cfgA < modTime (File 7199999990000 []) + workTimeLimit \<and>
   fst (canWorkOnRepo cfgA (markedWorld 7199999990000) ''proj'') = (False, None) \<and>
   entries (snd (canWorkOnRepo cfgA (markedWorld 7199999990000) ''proj''))
     (autogitWorkingName ''proj'') = Some (File 7199999990000 []) \<and>
   fails (markedWorld 0) = noFaults \<and>
   entries (markedWorld 0) (autogitWorkingName ''proj'') = Some (File 0 []) \<and>
   \<not> commonTime cfgNoOffset < modTime (File 0 []) + workTimeLimit \<and>
   fst (canWorkOnRepo cfgNoOffset (markedWorld 0) ''proj'') = (True, None) \<and>
   entries (snd (canWorkOnRepo cfgNoOffset (markedWorld 0) ''proj''))
     (autogitWorkingName ''proj'') = Some (File 7200000000000 []) \<and>
   serverOffset cfgNoOffset = None \<and> commonTime cfgNoOffset = 7200000000000 \<and>
   serverOffset cfgA = Some 7 \<and> sint (7 :: duration) \<noteq> - (2 ^ 63) \<and>
   commonTime cfgA = 7199999999993 \<and>
   serverOffset cfgLeastOffset = Some (- (2 ^ 63)) \<and>
   sint (- (2 ^ 63) :: duration) = - (2 ^ 63) \<and>
   commonTime cfgLeastOffset = 7200000000000 - 2 ^ 63 \<and>
   commonTime cfgLeastOffset < modTime (File 7199999990000 []) + workTimeLimit \<and>
   fst (canWorkOnRepo cfgLeastOffset (markedWorld 7199999990000) ''proj'') = (False, None)"
proof -
  have h0: "fails emptyWorld = noFaults"
    by (simp add: emptyWorld_def)
  have h1: "fails (markedWorld t) = noFaults" for t
    by (simp add: markedWorld_def putEntry_def emptyWorld_def)
  have e0: "entries emptyWorld (autogitWorkingName ''proj'') = None"
    by (simp add: emptyWorld_def)
  have e1: "entries (markedWorld t) (autogitWorkingName ''proj'') = Some (File t [])" for t
    by (simp add: markedWorld_def putEntry_def)
  have o: "serverOffset cfgNoOffset = None" "serverOffset cfgA = Some 7"
    "serverOffset cfgLeastOffset = Some (- (2 ^ 63))"
    "clockNow cfgNoOffset = 7200000000000" "clockNow cfgA = 7200000000000"
    "clockNow cfgLeastOffset = 7200000000000"
    by (simp_all add: cfgA_def cfgNoOffset_def cfgLeastOffset_def)
  have s: "sint (7 :: duration) = 7" "sint (- (2 ^ 63) :: duration) = - (2 ^ 63)"
    by simp_all
  have t2: "workTimeLimit = 3600000000000"
    by (simp add: workTimeLimit_def)
  note A = canWorkOnRepo_lease[OF h0, of "''proj''" cfgA]
  note B = canWorkOnRepo_lease[OF h1, of 7199999990000 "''proj''" cfgA]
  note C = canWorkOnRepo_lease[OF h1, of 0 "''proj''" cfgNoOffset]
  note D = canWorkOnRepo_lease[OF h1, of 7199999990000 "''proj''" cfgLeastOffset]
  have t1: "commonTime cfgA = 7199999999993" "commonTime cfgNoOffset = 7200000000000"
    "commonTime cfgLeastOffset = 7200000000000 - 2 ^ 63"
    using A C D by (simp_all add: o s)
  show ?thesis
    using A B C D by (simp add: h0 h1 e0 e1 o s t1 t2 setModTime_def)
qed

subsection \<open>Releasing\<close>

lemma workDoneLocked_ok_r:
  assumes "fails w = noFaults(ResetC := r)"
    and "entries w (autogitWorkingName repo) = Some (File t c)"
    and "fileOrAbsent (entries w (autogitLastErrName repo))"
  shows "workDoneLocked cfg w repo workErr =
           (None, w\<lparr>entries := (entries w)(autogitWorkingName repo := None,
                       autogitLastErrName repo := lastErrNode cfg workErr)\<rparr>)"
proof (cases "entries w (autogitLastErrName repo)")
  case None
  with assms show ?thesis
    by (cases workErr)
       (simp_all add: workDoneLocked_def callOnly_def fsRemove_def fsCreate_def
          fsWriteString_def noFaults_def lastErrNode_def names_distinct Let_def
          fun_upd_idem)
next
  case (Some n)
  with assms(3) obtain t' c' where n: "n = File t' c'" by (cases n) auto
  with Some assms show ?thesis
    by (cases workErr)
       (simp_all add: workDoneLocked_def callOnly_def fsRemove_def fsCreate_def
          fsWriteString_def noFaults_def lastErrNode_def names_distinct Let_def
          fun_upd_idem)
qed

lemma workDoneOnRepo_ok_r:
  assumes "fails w = noFaults(ResetC := r)"
    and "entries w (autogitWorkingName repo) = Some (File t c)"
    and "fileOrAbsent (entries w (autogitLastErrName repo))"
  shows "workDoneOnRepo cfg w repo workErr =
           (None, (withLock cfg repo w)\<lparr>entries := (entries (withLock cfg repo w))
                     (autogitWorkingName repo := None,
                      autogitLastErrName repo := lastErrNode cfg workErr)\<rparr>)"
  using assms
  by (simp add: workDoneOnRepo_def fsCreate_lock_r
      workDoneLocked_ok_r[where t=t and c=c] withLock_simps callOnly_def noFaults_def)

lemma workDoneOnRepo_no_marker_r:
  assumes "fails w = noFaults(ResetC := r)" and "entries w (autogitWorkingName repo) = None"
  shows "workDoneOnRepo cfg w repo workErr = (Some ErrNotExist, withLock cfg repo w)"
  using assms
  by (simp add: workDoneOnRepo_def fsCreate_lock_r workDoneLocked_def callOnly_def
      fsRemove_def withLock_simps noFaults_def)

lemmas workDoneLocked_ok = workDoneLocked_ok_r[where r=None, unfolded noFaults_upd]
lemmas workDoneOnRepo_ok = workDoneOnRepo_ok_r[where r=None, unfolded noFaults_upd]
lemmas workDoneOnRepo_no_marker = workDoneOnRepo_no_marker_r[where r=None, unfolded noFaults_upd]

lemma fileOrAbsent_lastErrNode: "fileOrAbsent (lastErrNode cfg workErr)"
  by (cases workErr) (simp_all add: lastErrNode_def)

text \<open>
  C6, as the claim states it, fails: on a store with neither a working marker
  nor a last-error marker the release returns the not-exist error of the
  removal of the working marker.
\<close>

theorem workDoneOnRepo_no_markers_counterexample:
  "entries emptyWorld (autogitWorkingName ''proj'') = None \<and>
   entries emptyWorld (autogitLastErrName ''proj'') = None \<and>
   fst (workDoneOnRepo cfgA emptyWorld ''proj'' None) = Some ErrNotExist"
  by (simp add: emptyWorld_def workDoneOnRepo_def workDoneLocked_def fsCreate_def
      fsRemove_def callOnly_def noFaults_def names_distinct)

text \<open>
  C6, amended.  While no call into the store fails: a release with the working
  marker present and no last-error marker returns no error, whether or not the
  lock file was there, so the absence of a last-error marker and of the lock
  file is nothing to clean up; a release with no working marker returns the
  not-exist error.
\<close>

theorem workDoneOnRepo_absent_markers:
  assumes "fails w = noFaults"
  shows
   "(\<forall>t c. entries w (autogitWorkingName repo) = Some (File t c) \<and>
           entries w (autogitLastErrName repo) = None \<longrightarrow>
        fst (workDoneOnRepo cfg w repo workErr) = None) \<and>
    (entries w (autogitWorkingName repo) = None \<longrightarrow>
        fst (workDoneOnRepo cfg w repo workErr) = Some ErrNotExist)"
proof -
  have a: "\<And>t c. entries w (autogitWorkingName repo) = Some (File t c) \<Longrightarrow>
           entries w (autogitLastErrName repo) = None \<Longrightarrow>
        fst (workDoneOnRepo cfg w repo workErr) = None"
    using workDoneOnRepo_ok[OF assms, of repo _ _ cfg workErr] by simp
  have b: "entries w (autogitWorkingName repo) = None \<Longrightarrow>
        fst (workDoneOnRepo cfg w repo workErr) = Some ErrNotExist"
    using workDoneOnRepo_no_marker[OF assms, of repo cfg workErr] by simp
  show ?thesis using a b by blast
qed

theorem workDoneOnRepo_absent_markers_witness:
  "fails (markedWorld 5) = noFaults \<and>
   entries (markedWorld 5) (autogitWorkingName ''proj'') = Some (File 5 []) \<and>
   entries (markedWorld 5) (autogitLastErrName ''proj'') = None \<and>
   entries (markedWorld 5) (autogitLockName ''proj'') = None \<and>
   fst (workDoneOnRepo cfgA (markedWorld 5) ''proj'' None) = None \<and>
   fails emptyWorld = noFaults \<and>
   entries emptyWorld (autogitWorkingName ''proj'') = None \<and>
   fst (workDoneOnRepo cfgA emptyWorld ''proj'' None) = Some ErrNotExist"
proof -
  have h0: "fails emptyWorld = noFaults"
    by (simp add: emptyWorld_def)
  have h1: "fails (markedWorld 5) = noFaults"
    by (simp add: markedWorld_def putEntry_def emptyWorld_def)
  have e: "entries (markedWorld 5) (autogitWorkingName ''proj'') = Some (File 5 [])"
    "entries (markedWorld 5) (autogitLastErrName ''proj'') = None"
    "entries (markedWorld 5) (autogitLockName ''proj'') = None"
    "entries emptyWorld (autogitWorkingName ''proj'') = None"
    by (simp_all add: markedWorld_def putEntry_def emptyWorld_def names_distinct)
  show ?thesis
    using workDoneOnRepo_absent_markers[OF h1, of "''proj''" cfgA None]
      workDoneOnRepo_absent_markers[OF h0, of "''proj''" cfgA None]
    by (simp add: h0 h1 e)
qed

subsection \<open>The last-error marker\<close>

text \<open>
  A whole job on a free lease, with the destination directory in place and
  only \<^verbatim>\<open>Reset\<close> allowed to fail: the job returns what \<^verbatim>\<open>Reset\<close> returned,
  and the markers are left as the release leaves them.
\<close>

lemma doReset_granted:
  assumes f: "fails w = noFaults(ResetC := r)"
    and e: "entries w (autogitWorkingName (srcRepo req)) = None"
    and d: "entries w (srcRepo req) = Some (Dir t cs)"
    and l: "fileOrAbsent (entries w (autogitLastErrName (srcRepo req)))"
  shows "fst (doReset cfg w req) = r \<and>
         fails (snd (doReset cfg w req)) = fails w \<and>
         entries (snd (doReset cfg w req)) (autogitWorkingName (srcRepo req)) = None \<and>
         entries (snd (doReset cfg w req)) (autogitLastErrName (srcRepo req))
           = lastErrNode cfg r \<and>
         entries (snd (doReset cfg w req)) (srcRepo req) = Some (Dir t cs)"
proof -
  let ?repo = "srcRepo req"
  let ?w0 = "withLock cfg ?repo w"
  let ?w1 = "?w0\<lparr>entries := (entries ?w0)(autogitWorkingName ?repo \<mapsto> File (commonTime cfg) [])\<rparr>"
  have c: "canWorkOnRepo cfg w ?repo = ((True, None), ?w1)"
    by (rule canWorkOnRepo_absent_r[OF f e])
  have f1: "fails ?w1 = noFaults(ResetC := r)"
    using f by (simp add: withLock_simps)
  have e1: "entries ?w1 (autogitWorkingName ?repo) = Some (File (commonTime cfg) [])"
    by simp
  have l1: "fileOrAbsent (entries ?w1 (autogitLastErrName ?repo))"
    using l by (simp add: names_distinct withLock_simps)
  have d1: "entries ?w1 ?repo = Some (Dir t cs)"
    using d by (simp add: repo_not_marker withLock_repo)
  have ch: "fsChroot ?repo ?w1 = None"
    using d1 f1 by (simp add: fsChroot_def noFaults_def)
  have rs: "callOnly ResetC ?w1 = r"
    using f1 by (simp add: callOnly_def)
  let ?w2 = "(withLock cfg ?repo ?w1)\<lparr>entries := (entries (withLock cfg ?repo ?w1))
                     (autogitWorkingName ?repo := None,
                      autogitLastErrName ?repo := lastErrNode cfg r)\<rparr>"
  have wd: "workDoneOnRepo cfg ?w1 ?repo r = (None, ?w2)"
    by (rule workDoneOnRepo_ok_r[OF f1 e1 l1])
  have pre: "callOnly GetNewConfigC w = None" "callOnly MakeUniqueIDC w = None"
    "callOnly GetRepoAndIDC w = None" "callOnly NewFSC w = None"
    using f by (simp_all add: callOnly_def noFaults_def)
  have res: "doReset cfg w req = (r, ?w2)"
    unfolding doReset_def
    by (simp only: pre c ch rs wd Let_def option.case prod.case if_True if_False
          not_True_eq_False not_False_eq_True simp_thms)
       (simp split: option.splits)
  have d2: "entries ?w2 ?repo = Some (Dir t cs)"
    using d1 by (simp add: repo_not_marker withLock_repo)
  show ?thesis
    using f d2 by (simp add: res withLock_simps names_distinct)
qed

text \<open>
  C7, as the claim states it, fails: on a store with no working marker and the
  last-error marker of an earlier failure, the release after a failed job
  returns the not-exist error of the removal of the working marker; the earlier
  last-error marker is not removed and the text of the new failure is not
  written.
\<close>

theorem workDoneOnRepo_stale_last_error_counterexample:
  "fails staleErrWorld = noFaults \<and>
   entries staleErrWorld (autogitWorkingName ''proj'') = None \<and>
   entries staleErrWorld (autogitLastErrName ''proj'') = Some (File 3 ''old failure'') \<and>
   fst (workDoneOnRepo cfgA staleErrWorld ''proj'' (Some (ErrOther ''boom'')))
     = Some ErrNotExist \<and>
   entries (snd (workDoneOnRepo cfgA staleErrWorld ''proj'' (Some (ErrOther ''boom''))))
     (autogitLastErrName ''proj'') = Some (File 3 ''old failure'')"
  by (simp add: staleErrWorld_def putEntry_def emptyWorld_def workDoneOnRepo_def
      workDoneLocked_def fsCreate_def fsRemove_def callOnly_def noFaults_def names_distinct)

text \<open>
  C7, amended.  While no call into the store fails, a release of a lease whose
  working marker is there removes the working marker and any earlier last-error
  marker and returns no error; after a failed job the last-error marker holds
  the text of the failure, after a successful job there is none; and a later
  acquire and release after a successful job leaves no last-error marker.  The
  same holds for a whole job: on a free lease, with the destination directory
  in place and with only \<^verbatim>\<open>Reset\<close> allowed to fail, \<^verbatim>\<open>doReset\<close> returns what
  \<^verbatim>\<open>Reset\<close> returned and leaves no working marker and a last-error marker with
  the text of the failure, if there was one; a following job that succeeds
  leaves no last-error marker.  A release with no working marker returns the
  not-exist error and leaves the last-error marker as it was.
\<close>

theorem workDoneOnRepo_last_error:
  "(fails w = noFaults \<and> entries w (autogitWorkingName repo) = Some (File t c) \<and>
      fileOrAbsent (entries w (autogitLastErrName repo)) \<longrightarrow>
    fst (workDoneOnRepo cfg w repo workErr) = None \<and>
    entries (snd (workDoneOnRepo cfg w repo workErr)) (autogitWorkingName repo) = None \<and>
    entries (snd (workDoneOnRepo cfg w repo workErr)) (autogitLastErrName repo) =
      (case workErr of
         None \<Rightarrow> None
       | Some e \<Rightarrow> Some (File (clockNow cfg) (errorText e))) \<and>
    fst (canWorkOnRepo cfg' (snd (workDoneOnRepo cfg w repo workErr)) repo) = (True, None) \<and>
    fst (workDoneOnRepo cfg''
           (snd (canWorkOnRepo cfg' (snd (workDoneOnRepo cfg w repo workErr)) repo))
           repo None) = None \<and>
    entries (snd (workDoneOnRepo cfg''
           (snd (canWorkOnRepo cfg' (snd (workDoneOnRepo cfg w repo workErr)) repo))
           repo None)) (autogitLastErrName repo) = None) \<and>
   (fails w = noFaults(ResetC := r) \<and>
      entries w (autogitWorkingName (srcRepo req)) = None \<and>
      entries w (srcRepo req) = Some (Dir t' cs) \<and>
      fileOrAbsent (entries w (autogitLastErrName (srcRepo req))) \<longrightarrow>
    fst (doReset cfg w req) = r \<and>
    entries (snd (doReset cfg w req)) (autogitWorkingName (srcRepo req)) = None \<and>
    entries (snd (doReset cfg w req)) (autogitLastErrName (srcRepo req)) =
      (case r of
         None \<Rightarrow> None
       | Some e \<Rightarrow> Some (File (clockNow cfg) (errorText e))) \<and>
    fst (doReset cfg' ((snd (doReset cfg w req))\<lparr>fails := noFaults\<rparr>) req) = None \<and>
    entries (snd (doReset cfg' ((snd (doReset cfg w req))\<lparr>fails := noFaults\<rparr>) req))
      (autogitLastErrName (srcRepo req)) = None) \<and>
   (fails w = noFaults \<and> entries w (autogitWorkingName repo) = None \<longrightarrow>
    fst (workDoneOnRepo cfg w repo workErr) = Some ErrNotExist \<and>
    entries (snd (workDoneOnRepo cfg w repo workErr)) (autogitWorkingName repo) = None \<and>
    entries (snd (workDoneOnRepo cfg w repo workErr)) (autogitLastErrName repo) =
      entries w (autogitLastErrName repo))"
proof (intro conjI impI)
  assume h: "fails w = noFaults \<and> entries w (autogitWorkingName repo) = Some (File t c) \<and>
      fileOrAbsent (entries w (autogitLastErrName repo))"
  let ?w1 = "snd (workDoneOnRepo cfg w repo workErr)"
  let ?w2 = "snd (canWorkOnRepo cfg' ?w1 repo)"
  from h have h1: "fails w = noFaults"
    and h2: "entries w (autogitWorkingName repo) = Some (File t c)"
    and h3: "fileOrAbsent (entries w (autogitLastErrName repo))" by simp_all
  have r1: "workDoneOnRepo cfg w repo workErr =
      (None, (withLock cfg repo w)\<lparr>entries := (entries (withLock cfg repo w))
                     (autogitWorkingName repo := None,
                      autogitLastErrName repo := lastErrNode cfg workErr)\<rparr>)"
    by (rule workDoneOnRepo_ok[OF h1 h2 h3])
  have f1: "fails ?w1 = noFaults"
    using h1 by (simp add: r1 withLock_simps)
  have e1: "entries ?w1 (autogitWorkingName repo) = None"
    by (simp add: r1 names_distinct)
  have l1: "entries ?w1 (autogitLastErrName repo) = lastErrNode cfg workErr"
    by (simp add: r1)
  have r2: "canWorkOnRepo cfg' ?w1 repo =
           ((True, None),
            (withLock cfg' repo ?w1)\<lparr>entries := (entries (withLock cfg' repo ?w1))
               (autogitWorkingName repo \<mapsto> File (commonTime cfg') [])\<rparr>)"
    by (rule canWorkOnRepo_absent[OF f1 e1])
  have f2: "fails ?w2 = noFaults"
    using f1 by (simp add: r2 withLock_simps)
  have e2: "entries ?w2 (autogitWorkingName repo) = Some (File (commonTime cfg') [])"
    by (simp add: r2)
  have l2: "fileOrAbsent (entries ?w2 (autogitLastErrName repo))"
    by (simp add: r2 names_distinct withLock_simps l1 fileOrAbsent_lastErrNode)
  have r3: "workDoneOnRepo cfg'' ?w2 repo None =
      (None, (withLock cfg'' repo ?w2)\<lparr>entries := (entries (withLock cfg'' repo ?w2))
                     (autogitWorkingName repo := None,
                      autogitLastErrName repo := lastErrNode cfg'' None)\<rparr>)"
    by (rule workDoneOnRepo_ok[OF f2 e2 l2])
  show "fst (workDoneOnRepo cfg w repo workErr) = None" by (simp add: r1)
  show "entries ?w1 (autogitWorkingName repo) = None" by (rule e1)
  show "entries ?w1 (autogitLastErrName repo) =
      (case workErr of
         None \<Rightarrow> None
       | Some e \<Rightarrow> Some (File (clockNow cfg) (errorText e)))"
    by (simp add: l1 lastErrNode_def)
  show "fst (canWorkOnRepo cfg' ?w1 repo) = (True, None)" by (simp add: r2)
  show "fst (workDoneOnRepo cfg'' ?w2 repo None) = None" by (simp add: r3)
  show "entries (snd (workDoneOnRepo cfg'' ?w2 repo None)) (autogitLastErrName repo) = None"
    by (simp add: r3 lastErrNode_def)
next
  assume h: "fails w = noFaults(ResetC := r) \<and>
      entries w (autogitWorkingName (srcRepo req)) = None \<and>
      entries w (srcRepo req) = Some (Dir t' cs) \<and>
      fileOrAbsent (entries w (autogitLastErrName (srcRepo req)))"
  let ?w1 = "snd (doReset cfg w req)"
  let ?w2 = "?w1\<lparr>fails := noFaults\<rparr>"
  from h have h1: "fails w = noFaults(ResetC := r)"
    and h2: "entries w (autogitWorkingName (srcRepo req)) = None"
    and h3: "entries w (srcRepo req) = Some (Dir t' cs)"
    and h4: "fileOrAbsent (entries w (autogitLastErrName (srcRepo req)))" by simp_all
  note A = doReset_granted[OF h1 h2 h3 h4, of cfg]
  have f2: "fails ?w2 = noFaults(ResetC := None)" by (simp add: noFaults_upd)
  have e2: "entries ?w2 (autogitWorkingName (srcRepo req)) = None" using A by simp
  have d2: "entries ?w2 (srcRepo req) = Some (Dir t' cs)" using A by simp
  have l2: "fileOrAbsent (entries ?w2 (autogitLastErrName (srcRepo req)))"
    using A by (simp add: fileOrAbsent_lastErrNode)
  note B = doReset_granted[OF f2 e2 d2 l2, of cfg']
  show "fst (doReset cfg w req) = r" using A by simp
  show "entries ?w1 (autogitWorkingName (srcRepo req)) = None" using A by simp
  show "entries ?w1 (autogitLastErrName (srcRepo req)) =
      (case r of
         None \<Rightarrow> None
       | Some e \<Rightarrow> Some (File (clockNow cfg) (errorText e)))"
    using A by (simp add: lastErrNode_def)
  show "fst (doReset cfg' ?w2 req) = None" using B by simp
  show "entries (snd (doReset cfg' ?w2 req)) (autogitLastErrName (srcRepo req)) = None"
    using B by (simp add: lastErrNode_def)
next
  assume h: "fails w = noFaults \<and> entries w (autogitWorkingName repo) = None"
  then have h1: "fails w = noFaults"
    and h2: "entries w (autogitWorkingName repo) = None" by simp_all
  note r = workDoneOnRepo_no_marker[OF h1 h2, of cfg workErr]
  show "fst (workDoneOnRepo cfg w repo workErr) = Some ErrNotExist"
    by (simp add: r)
  show "entries (snd (workDoneOnRepo cfg w repo workErr)) (autogitWorkingName repo) = None"
    using h2 by (simp add: r withLock_simps)
  show "entries (snd (workDoneOnRepo cfg w repo workErr)) (autogitLastErrName repo) =
      entries w (autogitLastErrName repo)"
    by (simp add: r withLock_simps)
qed

theorem workDoneOnRepo_last_error_witness:
  "fails failedJobWorld = noFaults \<and>
   entries failedJobWorld (autogitWorkingName ''proj'') = Some (File 5 []) \<and>
   fileOrAbsent (entries failedJobWorld (autogitLastErrName ''proj'')) \<and>
   fst (workDoneOnRepo cfgA failedJobWorld ''proj'' (Some (ErrOther ''boom''))) = None \<and>
   entries (snd (workDoneOnRepo cfgA failedJobWorld ''proj'' (Some (ErrOther ''boom''))))
     (autogitWorkingName ''proj'') = None \<and>
   entries (snd (workDoneOnRepo cfgA failedJobWorld ''proj'' (Some (ErrOther ''boom''))))
     (autogitLastErrName ''proj'') = Some (File 7200000000000 ''boom'') \<and>
   entries (snd (workDoneOnRepo cfgA
      (snd (canWorkOnRepo cfgA
         (snd (workDoneOnRepo cfgA failedJobWorld ''proj'' (Some (ErrOther ''boom''))))
         ''proj''))
      ''proj'' None)) (autogitLastErrName ''proj'') = None \<and>
   fails resetFailsWorld = noFaults(ResetC := Some (ErrOther ''no such branch'')) \<and>
   entries resetFailsWorld (autogitWorkingName (srcRepo reqA)) = None \<and>
   entries resetFailsWorld (srcRepo reqA) = Some (Dir 1 []) \<and>
   fileOrAbsent (entries resetFailsWorld (autogitLastErrName (srcRepo reqA))) \<and>
   fst (doReset cfgA resetFailsWorld reqA) = Some (ErrOther ''no such branch'') \<and>
   entries (snd (doReset cfgA resetFailsWorld reqA)) (autogitLastErrName (srcRepo reqA))
     = Some (File 7200000000000 ''no such branch'') \<and>
   fst (doReset cfgA ((snd (doReset cfgA resetFailsWorld reqA))\<lparr>fails := noFaults\<rparr>) reqA)
     = None \<and>
   entries (snd (doReset cfgA ((snd (doReset cfgA resetFailsWorld reqA))\<lparr>fails := noFaults\<rparr>)
      reqA)) (autogitLastErrName (srcRepo reqA)) = None \<and>
   fails staleErrWorld = noFaults \<and>
   entries staleErrWorld (autogitWorkingName ''proj'') = None \<and>
   fst (workDoneOnRepo cfgA staleErrWorld ''proj'' (Some (ErrOther ''boom'')))
     = Some ErrNotExist \<and>
   entries (snd (workDoneOnRepo cfgA staleErrWorld ''proj'' (Some (ErrOther ''boom''))))
     (autogitLastErrName ''proj'') = Some (File 3 ''old failure'')"
proof -
  have h: "fails failedJobWorld = noFaults"
    by (simp add: failedJobWorld_def markedWorld_def putEntry_def emptyWorld_def)
  have e: "entries failedJobWorld (autogitWorkingName ''proj'') = Some (File 5 [])"
    by (simp add: failedJobWorld_def markedWorld_def putEntry_def names_distinct)
  have l: "fileOrAbsent (entries failedJobWorld (autogitLastErrName ''proj''))"
    by (simp add: failedJobWorld_def putEntry_def)
  have p: "srcRepo reqA = ''proj''" by (simp add: reqA_def)
  have f: "fails resetFailsWorld = noFaults(ResetC := Some (ErrOther ''no such branch''))"
    by (simp add: resetFailsWorld_def failing_def putEntry_def emptyWorld_def)
  have g: "entries resetFailsWorld (autogitWorkingName (srcRepo reqA)) = None"
    "entries resetFailsWorld (srcRepo reqA) = Some (Dir 1 [])"
    "fileOrAbsent (entries resetFailsWorld (autogitLastErrName (srcRepo reqA)))"
    by (simp_all add: p resetFailsWorld_def failing_def putEntry_def emptyWorld_def
        repo_not_marker)
  note A = workDoneOnRepo_last_error[where w=failedJobWorld and repo="''proj''" and t=5
      and c="[]" and cfg=cfgA and workErr="Some (ErrOther ''boom'')" and cfg'=cfgA
      and cfg''=cfgA and r=None and req=reqA and t'=1 and cs="[]"]
  note B = workDoneOnRepo_last_error[where w=resetFailsWorld and repo="''proj''" and t=5
      and c="[]" and cfg=cfgA and workErr=None and cfg'=cfgA
      and cfg''=cfgA and r="Some (ErrOther ''no such branch'')" and req=reqA and t'=1
      and cs="[]"]
  from A h e l have A': "fst (workDoneOnRepo cfgA failedJobWorld ''proj'' (Some (ErrOther ''boom''))) = None \<and>
   entries (snd (workDoneOnRepo cfgA failedJobWorld ''proj'' (Some (ErrOther ''boom''))))
     (autogitWorkingName ''proj'') = None \<and>
   entries (snd (workDoneOnRepo cfgA failedJobWorld ''proj'' (Some (ErrOther ''boom''))))
     (autogitLastErrName ''proj'') = Some (File 7200000000000 ''boom'') \<and>
   entries (snd (workDoneOnRepo cfgA
      (snd (canWorkOnRepo cfgA
         (snd (workDoneOnRepo cfgA failedJobWorld ''proj'' (Some (ErrOther ''boom''))))
         ''proj''))
      ''proj'' None)) (autogitLastErrName ''proj'') = None"
    by (simp add: cfgA_def)
  from B f g have B': "fst (doReset cfgA resetFailsWorld reqA) = Some (ErrOther ''no such branch'') \<and>
   entries (snd (doReset cfgA resetFailsWorld reqA)) (autogitLastErrName (srcRepo reqA))
     = Some (File 7200000000000 ''no such branch'') \<and>
   fst (doReset cfgA ((snd (doReset cfgA resetFailsWorld reqA))\<lparr>fails := noFaults\<rparr>) reqA)
     = None \<and>
   entries (snd (doReset cfgA ((snd (doReset cfgA resetFailsWorld reqA))\<lparr>fails := noFaults\<rparr>)
      reqA)) (autogitLastErrName (srcRepo reqA)) = None"
    by (simp add: cfgA_def)
  have k: "fails staleErrWorld = noFaults"
    "entries staleErrWorld (autogitWorkingName ''proj'') = None"
    "entries staleErrWorld (autogitLastErrName ''proj'') = Some (File 3 ''old failure'')"
    by (simp_all add: staleErrWorld_def putEntry_def emptyWorld_def names_distinct)
  note C = workDoneOnRepo_last_error[where w=staleErrWorld and repo="''proj''" and t=5
      and c="[]" and cfg=cfgA and workErr="Some (ErrOther ''boom'')" and cfg'=cfgA
      and cfg''=cfgA and r=None and req=reqA and t'=1 and cs="[]"]
  from C k have C': "fst (workDoneOnRepo cfgA staleErrWorld ''proj'' (Some (ErrOther ''boom'')))
     = Some ErrNotExist \<and>
   entries (snd (workDoneOnRepo cfgA staleErrWorld ''proj'' (Some (ErrOther ''boom''))))
     (autogitLastErrName ''proj'') = Some (File 3 ''old failure'')"
    by simp
  from h e l f g k A' B' C' show ?thesis by simp
qed

section \<open>Properties of submission\<close>

subsection \<open>Coalescing\<close>

lemma queueReset_known:
  "resetsInQueue m (resetReq_id join req) = Some req' \<Longrightarrow>
   queueReset join m sel req = Next ((Some (doneCh req'), None), m)"
  by (simp add: queueReset_def)



lemma queueReset_new_cancel:
  "resetsInQueue m (resetReq_id join req) = None \<Longrightarrow>
   queueReset join m (CtxDone e) req =
     Next ((None, Some e),
           m\<lparr>resetsWG := resetsWG m + 1,
             resetsInQueue := (resetsInQueue m)(resetReq_id join req \<mapsto> req),
             lateSenders := lateSenders m @ [req]\<rparr>)"
  by (simp add: queueReset_def Let_def)

lemma queueReset_error:
  "queueReset join m sel req = Next ((ch, Some e), m') \<Longrightarrow> sel = CtxDone e \<and> ch = None"
  by (auto simp: queueReset_def Let_def chSend_def split: option.splits selectCase.splits
      if_splits)



subsection \<open>A context done at the push\<close>

lemma lateSend_last:
  "\<not> inClosed (resetQueue m) \<Longrightarrow>
   lateSend (m\<lparr>lateSenders := xs @ [req]\<rparr>) (length xs) =
     Next (m\<lparr>resetQueue := (resetQueue m)\<lparr>items := items (resetQueue m) @ [req]\<rparr>,
             lateSenders := xs\<rparr>)"
  by (simp add: lateSend_def chSend_def)

text \<open>
  C4.  When the identity is not yet in the queued map and the context is done
  at the push, \<^verbatim>\<open>queueReset\<close> returns no channel and the context's error, the
  request is registered in the queued map and stays there, and a goroutine
  holds the request.  Any later submission with that identity gets the
  registered request's channel and no error, whatever its own context.  When
  the goroutine runs, the queue not being closed, the request is appended to
  the queue and is still registered.
\<close>

theorem queueReset_cancelled_delivers:
  assumes "resetsInQueue m (resetReq_id join req) = None"
  shows
   "\<exists>m'. queueReset join m (CtxDone e) req = Next ((None, Some e), m') \<and>
      resetsInQueue m' (resetReq_id join req) = Some req \<and>
      lateSenders m' = lateSenders m @ [req] \<and>
      items (resetQueue m') = items (resetQueue m) \<and>
      (\<forall>sel2 req2. resetReq_id join req2 = resetReq_id join req \<longrightarrow>
         queueReset join m' sel2 req2 = Next ((Some (doneCh req), None), m')) \<and>
      (\<not> inClosed (resetQueue m) \<longrightarrow>
         (\<exists>m''. lateSend m' (length (lateSenders m)) = Next m'' \<and>
            items (resetQueue m'') = items (resetQueue m) @ [req] \<and>
            lateSenders m'' = lateSenders m \<and>
            resetsInQueue m'' (resetReq_id join req) = Some req))"
proof -
  let ?m1 = "m\<lparr>resetsWG := resetsWG m + 1,
             resetsInQueue := (resetsInQueue m)(resetReq_id join req \<mapsto> req)\<rparr>"
  let ?m' = "?m1\<lparr>lateSenders := lateSenders m @ [req]\<rparr>"
  have q: "queueReset join m (CtxDone e) req = Next ((None, Some e), ?m')"
    using assms by (simp add: queueReset_new_cancel)
  have k: "\<And>sel2 req2. resetReq_id join req2 = resetReq_id join req \<Longrightarrow>
         queueReset join ?m' sel2 req2 = Next ((Some (doneCh req), None), ?m')"
    by (rule queueReset_known) simp
  have l: "\<not> inClosed (resetQueue m) \<Longrightarrow>
      lateSend ?m' (length (lateSenders m)) =
        Next (?m1\<lparr>resetQueue := (resetQueue ?m1)\<lparr>items := items (resetQueue ?m1) @ [req]\<rparr>,
             lateSenders := lateSenders m\<rparr>)"
    by (rule lateSend_last) simp
  show ?thesis
    apply (rule exI[of _ ?m'])
    using q k l by simp
qed

theorem queueReset_cancelled_delivers_witness:
  "resetsInQueue manager0 (resetReq_id slashJoin reqA) = None \<and>
   \<not> inClosed (resetQueue manager0) \<and>
   queueReset slashJoin manager0 (CtxDone ErrCanceled) reqA
     = Next ((None, Some ErrCanceled), managerLate) \<and>
   resetsInQueue managerLate (resetReq_id slashJoin reqA) = Some reqA \<and>
   queueReset slashJoin managerLate (CtxDone ErrCanceled) reqB
     = Next ((Some (doneCh reqA), None), managerLate) \<and>
   lateSend managerLate 0 = Next managerA \<and>
   items (resetQueue managerA) = [reqA]"
proof -
  have i: "resetReq_id slashJoin reqB = resetReq_id slashJoin reqA"
    by (simp add: resetReq_id_def reqA_def reqB_def)
  have n: "resetsInQueue manager0 (resetReq_id slashJoin reqA) = None"
    by (simp add: manager0_def NewAutogitManager_def)
  have o: "\<not> inClosed (resetQueue manager0)" "lateSenders manager0 = []"
    "items (resetQueue manager0) = []"
    by (simp_all add: manager0_def NewAutogitManager_def)
  have q: "queueReset slashJoin manager0 (CtxDone ErrCanceled) reqA
     = Next ((None, Some ErrCanceled), managerLate)"
    by (simp add: queueReset_def resetReq_id_def manager0_def NewAutogitManager_def
        managerLate_def reqA_def)
  have d: "lateSend managerLate 0 = Next managerA"
    by (simp add: lateSend_def chSend_def managerLate_def managerA_def manager0_def
        NewAutogitManager_def)
  from queueReset_cancelled_delivers[OF n, of ErrCanceled] obtain m' where
    m1: "queueReset slashJoin manager0 (CtxDone ErrCanceled) reqA
           = Next ((None, Some ErrCanceled), m')"
    and m2: "resetsInQueue m' (resetReq_id slashJoin reqA) = Some reqA"
    and m3: "\<forall>sel2 req2. resetReq_id slashJoin req2 = resetReq_id slashJoin reqA \<longrightarrow>
         queueReset slashJoin m' sel2 req2 = Next ((Some (doneCh reqA), None), m')"
    and m4: "\<not> inClosed (resetQueue manager0) \<longrightarrow>
         (\<exists>m''. lateSend m' (length (lateSenders manager0)) = Next m'' \<and>
            items (resetQueue m'') = items (resetQueue manager0) @ [reqA] \<and>
            lateSenders m'' = lateSenders manager0 \<and>
            resetsInQueue m'' (resetReq_id slashJoin reqA) = Some reqA)"
    by blast
  from m1 q have e: "m' = managerLate" by simp
  from m3 i e have c: "queueReset slashJoin managerLate (CtxDone ErrCanceled) reqB
     = Next ((Some (doneCh reqA), None), managerLate)"
    by blast
  from m4 o e d have x: "items (resetQueue managerA) = [reqA]"
    by simp
  show ?thesis using n o(1) q m2 e c d x by simp
qed

lemma Pull_unfold:
  "Pull join m sel s r b d dd =
     queueReset join (m\<lparr>nextChan := Suc (nextChan m)\<rparr>) sel
       \<lparr>srcTLF = s, srcRepo = r, branchName = b, dstTLF = d, dstDir = dd,
        doneCh = nextChan m\<rparr>"
  by (simp add: Pull_def makeChan_def)

lemma cloneLocked_cases:
  "(\<exists>e' w'. cloneLocked join cfg w m sel s r b d dd = Next ((None, Some e'), w', m)) \<or>
   (\<exists>w'. cloneLocked join cfg w m sel s r b d dd =
      (case Pull join m sel s r b d dd of
         Next (res, m2) \<Rightarrow> Next (res, w', m2)
       | Blocked \<Rightarrow> Blocked
       | Panic \<Rightarrow> Panic))"
  unfolding cloneLocked_def Pull_def
  by (auto split: option.split sum.split prod.split)

lemma Clone_cases:
  "(\<exists>e' w'. Clone join cfg w m sel s r b d dd = Next ((None, Some e'), w', m)) \<or>
   (\<exists>w' closeErr. Clone join cfg w m sel s r b d dd =
      (case Pull join m sel s r b d dd of
         Next ((ch, err), m2) \<Rightarrow> Next ((ch, (if err = None then closeErr else err)), w', m2)
       | Blocked \<Rightarrow> Blocked
       | Panic \<Rightarrow> Panic))"
proof (cases "callOnly NewFSC w")
  case (Some e)
  then show ?thesis by (simp add: Clone_def)
next
  case None
  show ?thesis
  proof (cases "fsCreate cfg (autogitLockName r) w")
    case (Inl e)
    with None show ?thesis by (simp add: Clone_def)
  next
    case (Inr w0)
    from cloneLocked_cases[of join cfg w0 m sel s r b d dd]
    show ?thesis
    proof
      assume "\<exists>e' w'. cloneLocked join cfg w0 m sel s r b d dd = Next ((None, Some e'), w', m)"
      with None Inr show ?thesis by (auto simp: Clone_def)
    next
      assume "\<exists>w'. cloneLocked join cfg w0 m sel s r b d dd =
        (case Pull join m sel s r b d dd of
           Next (res, m2) \<Rightarrow> Next (res, w', m2)
         | Blocked \<Rightarrow> Blocked
         | Panic \<Rightarrow> Panic)"
      then obtain w' where c: "cloneLocked join cfg w0 m sel s r b d dd =
        (case Pull join m sel s r b d dd of
           Next (res, m2) \<Rightarrow> Next (res, w', m2)
         | Blocked \<Rightarrow> Blocked
         | Panic \<Rightarrow> Panic)" by blast
      have "Clone join cfg w m sel s r b d dd =
        (case Pull join m sel s r b d dd of
           Next ((ch, err), m2) \<Rightarrow>
             Next ((ch, (if err = None then callOnly (CloseC (autogitLockName r)) w' else err)),
                   w', m2)
         | Blocked \<Rightarrow> Blocked
         | Panic \<Rightarrow> Panic)"
        using None Inr c by (simp add: Clone_def split: outcome.split prod.split)
      then show ?thesis by blast
    qed
  qed
qed

text \<open>
  \<^verbatim>\<open>Clone\<close> gets to the push when no call into the store fails and the
  destination has no entry of the repo's name or a directory there.
\<close>

lemma cloneLocked_reaches_push:
  assumes f: "fails w = noFaults"
    and d: "entries w r = None \<or> (\<exists>t cs. entries w r = Some (Dir t cs))"
  shows "\<exists>w'. cloneLocked join cfg w m sel s r b d dd =
      (case Pull join m sel s r b d dd of
         Next (res, m2) \<Rightarrow> Next (res, w', m2)
       | Blocked \<Rightarrow> Blocked
       | Panic \<Rightarrow> Panic)"
proof -
  from d obtain w1 t cs where m: "fsMkdirAll cfg r w = Inr w1"
    and f1: "fails w1 = noFaults" and e1: "entries w1 r = Some (Dir t cs)"
    using f by (auto simp: fsMkdirAll_def noFaults_def)
  have c: "fsChroot r w1 = None" "fsReadDir r w1 = Inr cs"
    using f1 e1 by (simp_all add: fsChroot_def fsReadDir_def noFaults_def)
  have l: "callOnly (LockC (autogitLockName r)) w = None"
    "callOnly (UnlockC (autogitLockName r)) w2 = fails w2 (UnlockC (autogitLockName r))" for w2
    using f by (simp_all add: callOnly_def noFaults_def)
  have k: "\<exists>w2. makeCloningFile w1 r s r b = (None, w2) \<and> fails w2 = noFaults"
    using f1 e1 by (simp add: makeCloningFile_def noFaults_def Let_def)
  then obtain w2 where k2: "makeCloningFile w1 r s r b = (None, w2)" "fails w2 = noFaults"
    by blast
  show ?thesis
    unfolding cloneLocked_def Pull_def
    by (simp add: l m c k2 noFaults_def split: prod.split outcome.split)
qed

lemma Clone_reaches_push:
  assumes f: "fails w = noFaults"
    and d: "entries w r = None \<or> (\<exists>t cs. entries w r = Some (Dir t cs))"
    and p: "Pull join m sel s r b d dd = Next ((None, Some e), m')"
  shows "\<exists>w'. Clone join cfg w m sel s r b d dd = Next ((None, Some e), w', m')"
proof -
  let ?w0 = "withLock cfg r w"
  have c: "fsCreate cfg (autogitLockName r) w = Inr ?w0"
    by (rule fsCreate_lock[OF f])
  have f0: "fails ?w0 = noFaults" using f by (simp add: withLock_simps)
  have d0: "entries ?w0 r = None \<or> (\<exists>t cs. entries ?w0 r = Some (Dir t cs))"
    using d by (simp add: withLock_repo)
  from cloneLocked_reaches_push[OF f0 d0, of join cfg m sel s b d dd]
  obtain w' where cl: "cloneLocked join cfg ?w0 m sel s r b d dd = Next ((None, Some e), w', m')"
    unfolding p by auto
  have n: "callOnly NewFSC w = None" using f by (simp add: callOnly_def noFaults_def)
  have "Clone join cfg w m sel s r b d dd = Next ((None, Some e), w', m')"
    by (simp add: Clone_def n c cl)
  then show ?thesis by blast
qed

text \<open>
  C10.  When the identity is not yet in the queued map and the context is done
  at the push, \<^verbatim>\<open>Pull\<close> returns a nil channel and the context's error, while
  the request, carrying the channel made for this call, is registered and
  handed to the sending goroutine.  A later \<^verbatim>\<open>Pull\<close> for the same destination
  and repo, from any source and branch, returns that channel.  \<^verbatim>\<open>Clone\<close>
  returns a nil channel and an error too, on every store: either a step before
  the push failed and the manager is as before, or the error is the context's
  and the manager is the one \<^verbatim>\<open>Pull\<close> leaves.  When no call into the store
  fails and the destination has no entry of the repo's name or a directory
  there, \<^verbatim>\<open>Clone\<close> gets to the push: it returns a nil channel and the
  context's error, and the manager is the one \<^verbatim>\<open>Pull\<close> leaves, with the
  request registered and handed to the sending goroutine.
\<close>

theorem cancelled_submission_no_handle:
  assumes "resetsInQueue m (join [d, dd, r]) = None"
  shows
   "\<exists>m'. Pull join m (CtxDone e) s r b d dd = Next ((None, Some e), m') \<and>
      resetsInQueue m' (join [d, dd, r]) =
        Some \<lparr>srcTLF = s, srcRepo = r, branchName = b, dstTLF = d, dstDir = dd,
              doneCh = nextChan m\<rparr> \<and>
      lateSenders m' = lateSenders m @
        [\<lparr>srcTLF = s, srcRepo = r, branchName = b, dstTLF = d, dstDir = dd,
          doneCh = nextChan m\<rparr>] \<and>
      (\<forall>sel2 s2 b2. Pull join m' sel2 s2 r b2 d dd =
         Next ((Some (nextChan m), None), m'\<lparr>nextChan := Suc (nextChan m')\<rparr>)) \<and>
      (\<exists>e' w' m''. Clone join cfg w m (CtxDone e) s r b d dd = Next ((None, Some e'), w', m'') \<and>
         (m'' = m \<or> e' = e \<and> m'' = m')) \<and>
      (fails w = noFaults \<and>
         (entries w r = None \<or> (\<exists>t cs. entries w r = Some (Dir t cs))) \<longrightarrow>
       (\<exists>w'. Clone join cfg w m (CtxDone e) s r b d dd = Next ((None, Some e), w', m')))"
proof -
  let ?req = "\<lparr>srcTLF = s, srcRepo = r, branchName = b, dstTLF = d, dstDir = dd,
              doneCh = nextChan m\<rparr>"
  let ?m0 = "m\<lparr>nextChan := Suc (nextChan m)\<rparr>"
  let ?m' = "?m0\<lparr>resetsWG := resetsWG ?m0 + 1,
             resetsInQueue := (resetsInQueue ?m0)(resetReq_id join ?req \<mapsto> ?req),
             lateSenders := lateSenders ?m0 @ [?req]\<rparr>"
  have i: "resetReq_id join ?req = join [d, dd, r]"
    by (simp add: resetReq_id_def)
  have n: "resetsInQueue ?m0 (resetReq_id join ?req) = None"
    using assms by (simp add: i)
  have p: "Pull join m (CtxDone e) s r b d dd = Next ((None, Some e), ?m')"
    unfolding Pull_unfold by (rule queueReset_new_cancel[OF n])
  have k: "\<And>sel2 s2 b2. Pull join ?m' sel2 s2 r b2 d dd =
         Next ((Some (nextChan m), None), ?m'\<lparr>nextChan := Suc (nextChan ?m')\<rparr>)"
  proof -
    fix sel2 :: selectCase and s2 b2 :: string
    let ?req2 = "\<lparr>srcTLF = s2, srcRepo = r, branchName = b2, dstTLF = d, dstDir = dd,
              doneCh = nextChan ?m'\<rparr>"
    have "resetsInQueue (?m'\<lparr>nextChan := Suc (nextChan ?m')\<rparr>) (resetReq_id join ?req2)
            = Some ?req"
      by (simp add: resetReq_id_def)
    from queueReset_known[OF this, of sel2]
    show "Pull join ?m' sel2 s2 r b2 d dd =
         Next ((Some (nextChan m), None), ?m'\<lparr>nextChan := Suc (nextChan ?m')\<rparr>)"
      unfolding Pull_unfold by simp
  qed
  have c: "\<exists>e' w' m''. Clone join cfg w m (CtxDone e) s r b d dd = Next ((None, Some e'), w', m'') \<and>
         (m'' = m \<or> e' = e \<and> m'' = ?m')"
    using Clone_cases[of join cfg w m "CtxDone e" s r b d dd]
  proof
    assume "\<exists>e' w'. Clone join cfg w m (CtxDone e) s r b d dd = Next ((None, Some e'), w', m)"
    then show ?thesis by blast
  next
    assume "\<exists>w' closeErr. Clone join cfg w m (CtxDone e) s r b d dd =
      (case Pull join m (CtxDone e) s r b d dd of
         Next ((ch, err), m2) \<Rightarrow> Next ((ch, (if err = None then closeErr else err)), w', m2)
       | Blocked \<Rightarrow> Blocked
       | Panic \<Rightarrow> Panic)"
    then obtain w' where
      "Clone join cfg w m (CtxDone e) s r b d dd = Next ((None, Some e), w', ?m')"
      unfolding p by auto
    then show ?thesis by blast
  qed
  have g: "fails w = noFaults \<and>
         (entries w r = None \<or> (\<exists>t cs. entries w r = Some (Dir t cs))) \<longrightarrow>
       (\<exists>w'. Clone join cfg w m (CtxDone e) s r b d dd = Next ((None, Some e), w', ?m'))"
  proof
    assume h: "fails w = noFaults \<and>
         (entries w r = None \<or> (\<exists>t cs. entries w r = Some (Dir t cs)))"
    then have h1: "fails w = noFaults"
      and h2: "entries w r = None \<or> (\<exists>t cs. entries w r = Some (Dir t cs))" by simp_all
    show "\<exists>w'. Clone join cfg w m (CtxDone e) s r b d dd = Next ((None, Some e), w', ?m')"
      by (rule Clone_reaches_push[OF h1 h2 p])
  qed
  show ?thesis
    apply (rule exI[of _ ?m'])
    using p k c g by (simp add: i)
qed

theorem cancelled_submission_no_handle_witness:
  "resetsInQueue manager0 (slashJoin [''/keybase/team/teamB'', ''mirror'', ''proj'']) = None \<and>
   Pull slashJoin manager0 (CtxDone ErrCanceled)
       ''/keybase/team/teamA'' ''proj'' ''master'' ''/keybase/team/teamB'' ''mirror''
     = Next ((None, Some ErrCanceled), managerLate\<lparr>nextChan := 3\<rparr>) \<and>
   Pull slashJoin (managerLate\<lparr>nextChan := 3\<rparr>) SendCase
       ''/keybase/team/teamC'' ''proj'' ''dev'' ''/keybase/team/teamB'' ''mirror''
     = Next ((Some 2, None), managerLate\<lparr>nextChan := 4\<rparr>) \<and>
   fails emptyWorld = noFaults \<and> entries emptyWorld ''proj'' = None \<and>
   Clone slashJoin cfgA emptyWorld manager0 (CtxDone ErrCanceled)
       ''/keybase/team/teamA'' ''proj'' ''master'' ''/keybase/team/teamB'' ''mirror''
     = Next ((None, Some ErrCanceled), clonedWorld, managerLate\<lparr>nextChan := 3\<rparr>)"
proof -
  have n: "resetsInQueue manager0 (slashJoin [''/keybase/team/teamB'', ''mirror'', ''proj''])
      = None"
    by (simp add: manager0_def NewAutogitManager_def)
  have p: "Pull slashJoin manager0 (CtxDone ErrCanceled)
       ''/keybase/team/teamA'' ''proj'' ''master'' ''/keybase/team/teamB'' ''mirror''
     = Next ((None, Some ErrCanceled), managerLate\<lparr>nextChan := 3\<rparr>)"
    by (simp add: Pull_def makeChan_def queueReset_def resetReq_id_def manager0_def
        NewAutogitManager_def managerLate_def reqA_def)
  have c: "Clone slashJoin cfgA emptyWorld manager0 (CtxDone ErrCanceled)
       ''/keybase/team/teamA'' ''proj'' ''master'' ''/keybase/team/teamB'' ''mirror''
     = Next ((None, Some ErrCanceled), clonedWorld, managerLate\<lparr>nextChan := 3\<rparr>)"
    by (simp add: Clone_def cloneLocked_def callOnly_def fsCreate_def fsMkdirAll_def
        fsChroot_def fsReadDir_def makeCloningFile_def putChild_def cloneFileName_def
        emptyWorld_def noFaults_def lockName_not_repo clonedWorld_def putEntry_def cfgA_def
        makeChan_def queueReset_def resetReq_id_def manager0_def NewAutogitManager_def
        managerLate_def reqA_def fun_upd_twist)
  from cancelled_submission_no_handle[where join=slashJoin and m=manager0
      and d="''/keybase/team/teamB''" and dd="''mirror''" and r="''proj''"
      and e=ErrCanceled and s="''/keybase/team/teamA''" and b="''master''"
      and cfg=cfgA and w=emptyWorld, OF n]
  obtain m' where
    m1: "Pull slashJoin manager0 (CtxDone ErrCanceled)
       ''/keybase/team/teamA'' ''proj'' ''master'' ''/keybase/team/teamB'' ''mirror''
     = Next ((None, Some ErrCanceled), m')"
    and m2: "\<forall>sel2 s2 b2. Pull slashJoin m' sel2 s2 ''proj'' b2 ''/keybase/team/teamB'' ''mirror'' =
         Next ((Some (nextChan manager0), None), m'\<lparr>nextChan := Suc (nextChan m')\<rparr>)"
    and m3: "fails emptyWorld = noFaults \<and>
         (entries emptyWorld ''proj'' = None \<or>
          (\<exists>t cs. entries emptyWorld ''proj'' = Some (Dir t cs))) \<longrightarrow>
       (\<exists>w'. Clone slashJoin cfgA emptyWorld manager0 (CtxDone ErrCanceled)
           ''/keybase/team/teamA'' ''proj'' ''master'' ''/keybase/team/teamB'' ''mirror''
         = Next ((None, Some ErrCanceled), w', m'))"
    by blast
  have h: "fails emptyWorld = noFaults" "entries emptyWorld ''proj'' = None"
    by (simp_all add: emptyWorld_def)
  from m3 h obtain w' where
    m4: "Clone slashJoin cfgA emptyWorld manager0 (CtxDone ErrCanceled)
           ''/keybase/team/teamA'' ''proj'' ''master'' ''/keybase/team/teamB'' ''mirror''
         = Next ((None, Some ErrCanceled), w', m')"
    by blast
  from m1 p have e: "m' = managerLate\<lparr>nextChan := 3\<rparr>" by simp
  from m4 c have cw: "w' = clonedWorld" by simp
  have x: "nextChan manager0 = 2"
    by (simp add: manager0_def NewAutogitManager_def)
  from m2 e x have l: "Pull slashJoin (managerLate\<lparr>nextChan := 3\<rparr>) SendCase
       ''/keybase/team/teamC'' ''proj'' ''dev'' ''/keybase/team/teamB'' ''mirror''
     = Next ((Some 2, None), managerLate\<lparr>nextChan := 4\<rparr>)"
    by simp
  show ?thesis using n p l h m4 e cw by simp
qed

subsection \<open>Where setup errors come out\<close>

lemma fsCreate_fails: "fsCreate cfg name w = Inr w' \<Longrightarrow> fails w' = fails w"
  by (auto simp: fsCreate_def split: option.splits)

lemma fsMkdirAll_fails: "fsMkdirAll cfg name w = Inr w' \<Longrightarrow> fails w' = fails w"
  by (auto simp: fsMkdirAll_def split: option.splits node.splits)

lemma cloneLocked_setup_failure:
  assumes "fails w c = Some e"
    and "c \<in> {LockC (autogitLockName r), MkdirAllC r, ChrootC r, ReadDirC r}"
  shows "\<exists>e' w'. cloneLocked join cfg w m sel s r b d dd = Next ((None, Some e'), w', m)"
proof (cases "callOnly (LockC (autogitLockName r)) w")
  case (Some e1)
  then show ?thesis by (simp add: cloneLocked_def)
next
  case None
  then have c1: "c \<noteq> LockC (autogitLockName r)"
    using assms(1) by (auto simp: callOnly_def)
  show ?thesis
  proof (cases "fsMkdirAll cfg r w")
    case (Inl e2)
    with None show ?thesis by (simp add: cloneLocked_def)
  next
    case (Inr w1)
    then have f1: "fails w1 = fails w" by (rule fsMkdirAll_fails)
    have c2: "c \<noteq> MkdirAllC r"
      using Inr assms(1) by (auto simp: fsMkdirAll_def)
    show ?thesis
    proof (cases "fsChroot r w1")
      case (Some e3)
      with None Inr show ?thesis by (simp add: cloneLocked_def)
    next
      case None2: None
      have c3: "c \<noteq> ChrootC r"
        using None2 assms(1) f1 by (auto simp: fsChroot_def)
      from c1 c2 c3 assms(2) have "c = ReadDirC r" by simp
      with assms(1) f1 have "fsReadDir r w1 = Inl e"
        by (simp add: fsReadDir_def)
      with None Inr None2 show ?thesis by (simp add: cloneLocked_def)
    qed
  qed
qed

lemma Clone_setup_failure:
  assumes "fails w c = Some e"
    and "c \<in> {NewFSC, CreateC (autogitLockName r), LockC (autogitLockName r),
               MkdirAllC r, ChrootC r, ReadDirC r}"
  shows "\<exists>e' w'. Clone join cfg w m sel s r b d dd = Next ((None, Some e'), w', m)"
proof (cases "callOnly NewFSC w")
  case (Some e1)
  then show ?thesis by (simp add: Clone_def)
next
  case None
  then have c1: "c \<noteq> NewFSC"
    using assms(1) by (auto simp: callOnly_def)
  show ?thesis
  proof (cases "fsCreate cfg (autogitLockName r) w")
    case (Inl e2)
    with None show ?thesis by (simp add: Clone_def)
  next
    case (Inr w0)
    then have f0: "fails w0 = fails w" by (rule fsCreate_fails)
    have c2: "c \<noteq> CreateC (autogitLockName r)"
      using Inr assms(1) by (auto simp: fsCreate_def)
    from c1 c2 assms(2)
    have "c \<in> {LockC (autogitLockName r), MkdirAllC r, ChrootC r, ReadDirC r}" by simp
    moreover have "fails w0 c = Some e"
      using assms(1) f0 by simp
    ultimately obtain e' w' where
      "cloneLocked join cfg w0 m sel s r b d dd = Next ((None, Some e'), w', m)"
      using cloneLocked_setup_failure[where w=w0 and c=c and e=e and r=r and join=join
          and cfg=cfg and m=m and sel=sel and s=s and b=b and d=d and dd=dd]
      by blast
    with None Inr show ?thesis by (simp add: Clone_def)
  qed
qed

lemma Delete_error:
  "Delete m sel d dd r b = Next ((ch, Some e), m') \<Longrightarrow>
   sel = CtxDone e \<and> ch = None \<and> deleteQueue m' = deleteQueue m"
  by (auto simp: Delete_def makeChan_def Let_def chSend_def split: selectCase.splits if_splits)

text \<open>
  C8, as the claim states it, fails.  A \<^verbatim>\<open>Pull\<close> returns a channel and no
  error and its request is in the queue, although the store is one in which
  the job's configuration cannot be constructed: that error comes out of
  \<^verbatim>\<open>doReset\<close>, in the worker, which goes on to clear and close whatever the
  job returned.  And a \<^verbatim>\<open>Pull\<close> whose request was constructed fails
  synchronously when the context is done.
\<close>

theorem setup_errors_synchronous_counterexample:
  "Pull slashJoin manager0 SendCase
       ''/keybase/team/teamA'' ''proj'' ''master'' ''/keybase/team/teamB'' ''mirror''
     = Next ((Some 2, None), managerA\<lparr>nextChan := 3\<rparr>) \<and>
   items (resetQueue (managerA\<lparr>nextChan := 3\<rparr>)) = [reqA] \<and>
   doReset cfgA noConfigWorld reqA = (Some (ErrOther ''no config''), noConfigWorld) \<and>
   resetWorker slashJoin managerA (WRun reqA) (JobReturn (Some (ErrOther ''no config'')))
     = Next (managerA, WClear reqA) \<and>
   Pull slashJoin manager0 (CtxDone ErrCanceled)
       ''/keybase/team/teamA'' ''proj'' ''master'' ''/keybase/team/teamB'' ''mirror''
     = Next ((None, Some ErrCanceled), managerLate\<lparr>nextChan := 3\<rparr>)"
  by (simp add: Pull_def makeChan_def queueReset_def chSend_def resetReq_id_def
      manager0_def NewAutogitManager_def managerA_def managerLate_def reqA_def
      doReset_def callOnly_def noConfigWorld_def failing_def)

text \<open>
  C8, amended.  \<^verbatim>\<open>Clone\<close> surfaces the failure of each of its own setup calls
  (the destination workspace, the creation and locking of the lock file,
  \<^verbatim>\<open>MkdirAll\<close>, \<^verbatim>\<open>Chroot\<close>, \<^verbatim>\<open>ReadDir\<close>) synchronously, as a nil channel and
  an error, and leaves the manager as it was, so nothing is queued.  \<^verbatim>\<open>Pull\<close>
  and \<^verbatim>\<open>Delete\<close> make no setup call: they return an error only when the
  context is done at the push.  A failure to construct the job's configuration
  or the destination workspace arises in \<^verbatim>\<open>doReset\<close> and \<^verbatim>\<open>doDelete\<close>, which
  return it to the worker, and the worker goes on the same way whatever the
  job returned.
\<close>

theorem setup_errors_where_surfaced:
  "(\<forall>c e. fails w c = Some e \<and>
       c \<in> {NewFSC, CreateC (autogitLockName r), LockC (autogitLockName r),
              MkdirAllC r, ChrootC r, ReadDirC r} \<longrightarrow>
       (\<exists>e' w'. Clone join cfg w m sel s r b d dd = Next ((None, Some e'), w', m))) \<and>
   (\<forall>ch e m'. Pull join m sel s r b d dd = Next ((ch, Some e), m') \<longrightarrow>
       sel = CtxDone e \<and> ch = None) \<and>
   (\<forall>ch e m'. Delete m sel d dd r b = Next ((ch, Some e), m') \<longrightarrow>
       sel = CtxDone e \<and> ch = None \<and> deleteQueue m' = deleteQueue m) \<and>
   (\<forall>e. fails w GetNewConfigC = Some e \<longrightarrow>
       doReset cfg w req = (Some e, w) \<and> doDelete cfg w dreq = (Some e, w)) \<and>
   (\<forall>e. fails w GetNewConfigC = None \<and> fails w MakeUniqueIDC = None \<and>
        fails w NewFSC = Some e \<longrightarrow>
       doDelete cfg w dreq = (Some e, w) \<and>
       (fails w GetRepoAndIDC = None \<longrightarrow> doReset cfg w req = (Some e, w))) \<and>
   resetWorker join m (WRun req) (JobReturn err) = Next (m, WClear req) \<and>
   deleteLoop m (DRun dreq) (DJobReturn err) = Next (m, DClose dreq)"
proof -
  have a: "\<And>c e. fails w c = Some e \<Longrightarrow>
       c \<in> {NewFSC, CreateC (autogitLockName r), LockC (autogitLockName r),
              MkdirAllC r, ChrootC r, ReadDirC r} \<Longrightarrow>
       (\<exists>e' w'. Clone join cfg w m sel s r b d dd = Next ((None, Some e'), w', m))"
    by (rule Clone_setup_failure)
  have b: "\<And>ch e m'. Pull join m sel s r b d dd = Next ((ch, Some e), m') \<Longrightarrow>
       sel = CtxDone e \<and> ch = None"
    unfolding Pull_unfold by (rule queueReset_error)
  have c: "\<And>ch e m'. Delete m sel d dd r b = Next ((ch, Some e), m') \<Longrightarrow>
       sel = CtxDone e \<and> ch = None \<and> deleteQueue m' = deleteQueue m"
    by (rule Delete_error)
  have d: "\<And>e. fails w GetNewConfigC = Some e \<Longrightarrow>
       doReset cfg w req = (Some e, w) \<and> doDelete cfg w dreq = (Some e, w)"
    by (simp add: doReset_def doDelete_def callOnly_def)
  have e: "\<And>e. fails w GetNewConfigC = None \<Longrightarrow> fails w MakeUniqueIDC = None \<Longrightarrow>
        fails w NewFSC = Some e \<Longrightarrow>
       doDelete cfg w dreq = (Some e, w) \<and>
       (fails w GetRepoAndIDC = None \<longrightarrow> doReset cfg w req = (Some e, w))"
    by (simp add: doReset_def doDelete_def callOnly_def)
  have f: "resetWorker join m (WRun req) (JobReturn err) = Next (m, WClear req)"
    "deleteLoop m (DRun dreq) (DJobReturn err) = Next (m, DClose dreq)"
    by simp_all
  show ?thesis using a b c d e f by blast
qed

theorem setup_errors_where_surfaced_witness:
  "fails noDestinationWorld NewFSC = Some ErrNotExist \<and>
   (\<exists>e' w'. Clone slashJoin cfgA noDestinationWorld manager0 SendCase
       ''/keybase/team/teamA'' ''proj'' ''master'' ''/keybase/team/teamB'' ''mirror''
     = Next ((None, Some e'), w', manager0)) \<and>
   fails noConfigWorld GetNewConfigC = Some (ErrOther ''no config'') \<and>
   doReset cfgA noConfigWorld reqA = (Some (ErrOther ''no config''), noConfigWorld) \<and>
   doDelete cfgA noConfigWorld delReqA = (Some (ErrOther ''no config''), noConfigWorld) \<and>
   fails noDestinationWorld GetNewConfigC = None \<and>
   fails noDestinationWorld MakeUniqueIDC = None \<and>
   fails noDestinationWorld GetRepoAndIDC = None \<and>
   doReset cfgA noDestinationWorld reqA = (Some ErrNotExist, noDestinationWorld)"
proof -
  have h: "fails noDestinationWorld NewFSC = Some ErrNotExist"
    "fails noConfigWorld GetNewConfigC = Some (ErrOther ''no config'')"
    "fails noDestinationWorld GetNewConfigC = None"
    "fails noDestinationWorld MakeUniqueIDC = None"
    "fails noDestinationWorld GetRepoAndIDC = None"
    by (simp_all add: noDestinationWorld_def noConfigWorld_def failing_def emptyWorld_def
        noFaults_def)
  note A = setup_errors_where_surfaced[where w=noDestinationWorld and r="''proj''"
      and join=slashJoin and cfg=cfgA and m=manager0 and sel=SendCase
      and s="''/keybase/team/teamA''" and b="''master''" and d="''/keybase/team/teamB''"
      and dd="''mirror''" and req=reqA and dreq=delReqA and err=None]
  note B = setup_errors_where_surfaced[where w=noConfigWorld and r="''proj''"
      and join=slashJoin and cfg=cfgA and m=manager0 and sel=SendCase
      and s="''/keybase/team/teamA''" and b="''master''" and d="''/keybase/team/teamB''"
      and dd="''mirror''" and req=reqA and dreq=delReqA and err=None]
  have c: "\<exists>e' w'. Clone slashJoin cfgA noDestinationWorld manager0 SendCase
       ''/keybase/team/teamA'' ''proj'' ''master'' ''/keybase/team/teamB'' ''mirror''
     = Next ((None, Some e'), w', manager0)"
    using A h(1) by blast
  have r: "doReset cfgA noConfigWorld reqA = (Some (ErrOther ''no config''), noConfigWorld)"
    "doDelete cfgA noConfigWorld delReqA = (Some (ErrOther ''no config''), noConfigWorld)"
    using B h(2) by blast+
  have n: "doReset cfgA noDestinationWorld reqA = (Some ErrNotExist, noDestinationWorld)"
    using A h by blast
  show ?thesis using h c r n by simp
qed

section \<open>Properties of the workers\<close>

lemma run_invariant:
  assumes step: "\<And>s a s'. P s \<Longrightarrow> step join s a = Next s' \<Longrightarrow> P s'"
  shows "P s \<Longrightarrow> run join s acts = Next s' \<Longrightarrow> P s'"
proof (induction acts arbitrary: s)
  case Nil
  then show ?case by simp
next
  case (Cons a acts)
  from Cons.prems(2) obtain s1 where s1: "step join s a = Next s1"
    and r: "run join s1 acts = Next s'"
    by (auto split: outcome.splits)
  from step[OF Cons.prems(1) s1] have "P s1" .
  from Cons.IH[OF this r] show ?case .
qed

subsection \<open>The in-progress claim\<close>

lemma markResetReqInProgress_free:
  "resetsInProgress m (resetReq_id join req) = None \<Longrightarrow>
   markResetReqInProgress join m req =
     (None, m\<lparr>resetsInQueue := (resetsInQueue m)(resetReq_id join req := None),
               resetsInProgress := (resetsInProgress m)(resetReq_id join req \<mapsto> req)\<rparr>)"
  by (simp add: markResetReqInProgress_def)

lemma markResetReqInProgress_taken:
  "resetsInProgress m (resetReq_id join req) = Some occ \<Longrightarrow>
   markResetReqInProgress join m req = (Some (doneCh occ), m)"
  by (simp add: markResetReqInProgress_def)

text \<open>What a worker's step does to the claims: nothing, a claim, or a release.\<close>

lemma resetWorker_claims:
  assumes "resetWorker join m st a = Next (m', st')"
  shows "(holds st' = holds st \<and> resetsInProgress m' = resetsInProgress m) \<or>
         (\<exists>r. holds st = None \<and> holds st' = Some r \<and>
              resetsInProgress m (resetReq_id join r) = None \<and>
              resetsInProgress m' = (resetsInProgress m)(resetReq_id join r \<mapsto> r)) \<or>
         (\<exists>r. holds st = Some r \<and> holds st' = None \<and>
              resetsInProgress m' = (resetsInProgress m)(resetReq_id join r := None))"
  using assms
  by (cases st; cases a)
     (auto simp: markResetReqInProgress_def clearFromInProgress_def closeChan_def
        split: list.splits option.splits if_splits)

lemma Pull_inProgress:
  "Pull join m sel s r b d dd = Next (res, m') \<Longrightarrow> resetsInProgress m' = resetsInProgress m"
  by (auto simp: Pull_def makeChan_def queueReset_def chSend_def Let_def
      split: option.splits selectCase.splits if_splits)

lemma Delete_inProgress:
  "Delete m sel d dd r b = Next (res, m') \<Longrightarrow> resetsInProgress m' = resetsInProgress m"
  by (auto simp: Delete_def makeChan_def chSend_def Let_def
      split: selectCase.splits if_splits)

lemma lateSend_inProgress:
  "lateSend m i = Next m' \<Longrightarrow> resetsInProgress m' = resetsInProgress m"
  by (auto simp: lateSend_def chSend_def split: if_splits)

lemma resetLoop_inProgress:
  "resetLoop s = Next s' \<Longrightarrow>
   resetsInProgress (mgr s') = resetsInProgress (mgr s) \<and> workers s' = workers s"
  by (auto simp: resetLoop_def closeChan_def split: if_splits)

lemma deleteLoop_inProgress:
  "deleteLoop m st a = Next (m', st') \<Longrightarrow> resetsInProgress m' = resetsInProgress m"
  by (cases st; cases a) (auto simp: closeChan_def split: list.splits if_splits)

lemma Shutdown_inProgress:
  "Shutdown m st = Next (m', st') \<Longrightarrow> resetsInProgress m' = resetsInProgress m"
  by (cases st) (auto simp: chClose_def split: if_splits)

lemma claimInv_frame:
  "claimInv join s \<Longrightarrow> workers s' = workers s \<Longrightarrow>
   resetsInProgress (mgr s') = resetsInProgress (mgr s) \<Longrightarrow> claimInv join s'"
  by (simp add: claimInv_def)

lemma claimInv_worker:
  assumes inv: "claimInv join s" and i: "i < length (workers s)"
    and st: "resetWorker join (mgr s) (workers s ! i) a = Next (m', st')"
  shows "claimInv join (s\<lparr>mgr := m', workers := (workers s)[i := st']\<rparr>)"
proof -
  let ?ws = "workers s"
  let ?P = "resetsInProgress (mgr s)"
  from inv have J1: "\<And>k r. k < length ?ws \<Longrightarrow> holds (?ws ! k) = Some r \<Longrightarrow>
      ?P (resetReq_id join r) = Some r"
    and J2: "\<And>k l r1 r2. k < length ?ws \<Longrightarrow> l < length ?ws \<Longrightarrow> k \<noteq> l \<Longrightarrow>
      holds (?ws ! k) = Some r1 \<Longrightarrow> holds (?ws ! l) = Some r2 \<Longrightarrow>
      resetReq_id join r1 \<noteq> resetReq_id join r2"
    unfolding claimInv_def by blast+
  from resetWorker_claims[OF st]
  consider
    (same) "holds st' = holds (?ws ! i)" "resetsInProgress m' = ?P"
  | (claim) r where "holds (?ws ! i) = None" "holds st' = Some r"
      "?P (resetReq_id join r) = None"
      "resetsInProgress m' = ?P(resetReq_id join r \<mapsto> r)"
  | (release) r where "holds (?ws ! i) = Some r" "holds st' = None"
      "resetsInProgress m' = ?P(resetReq_id join r := None)"
    by blast
  then show ?thesis
  proof cases
    case same
    have h: "\<And>k. k < length ?ws \<Longrightarrow> holds (?ws[i := st'] ! k) = holds (?ws ! k)"
      using same(1) i by (simp add: nth_list_update)
    show ?thesis
      unfolding claimInv_def using J1 J2 h same(2) by simp metis
  next
    case claim
    have free: "\<And>k r'. k < length ?ws \<Longrightarrow> holds (?ws ! k) = Some r' \<Longrightarrow>
        resetReq_id join r' \<noteq> resetReq_id join r"
      using J1 claim(3) by fastforce
    show ?thesis
      unfolding claimInv_def
    proof (intro conjI allI impI)
      fix k r'
      assume a: "k < length (workers (s\<lparr>mgr := m', workers := ?ws[i := st']\<rparr>)) \<and>
        holds (workers (s\<lparr>mgr := m', workers := ?ws[i := st']\<rparr>) ! k) = Some r'"
      show "resetsInProgress (mgr (s\<lparr>mgr := m', workers := ?ws[i := st']\<rparr>))
          (resetReq_id join r') = Some r'"
      proof (cases "k = i")
        case True
        with a i claim show ?thesis by simp
      next
        case False
        with a have "k < length ?ws" "holds (?ws ! k) = Some r'" by simp_all
        with J1 free claim(4) show ?thesis by simp
      qed
    next
      fix k l r1 r2
      assume a: "k < length (workers (s\<lparr>mgr := m', workers := ?ws[i := st']\<rparr>)) \<and>
        l < length (workers (s\<lparr>mgr := m', workers := ?ws[i := st']\<rparr>)) \<and> k \<noteq> l \<and>
        holds (workers (s\<lparr>mgr := m', workers := ?ws[i := st']\<rparr>) ! k) = Some r1 \<and>
        holds (workers (s\<lparr>mgr := m', workers := ?ws[i := st']\<rparr>) ! l) = Some r2"
      then have kl: "k < length ?ws" "l < length ?ws" "k \<noteq> l" by simp_all
      show "resetReq_id join r1 \<noteq> resetReq_id join r2"
      proof (cases "k = i")
        case True
        with a i claim kl have "r1 = r" "holds (?ws ! l) = Some r2" by simp_all
        with free[OF kl(2)] show ?thesis by auto
      next
        case False
        note ki = this
        show ?thesis
        proof (cases "l = i")
          case True
          with a i claim kl ki have "r2 = r" "holds (?ws ! k) = Some r1" by simp_all
          with free[OF kl(1)] show ?thesis by auto
        next
          case False
          with a ki have "holds (?ws ! k) = Some r1" "holds (?ws ! l) = Some r2" by simp_all
          with J2 kl show ?thesis by blast
        qed
      qed
    qed
  next
    case release
    have other: "\<And>k r'. k < length ?ws \<Longrightarrow> k \<noteq> i \<Longrightarrow> holds (?ws ! k) = Some r' \<Longrightarrow>
        resetReq_id join r' \<noteq> resetReq_id join r"
      using J2 i release(1) by blast
    show ?thesis
      unfolding claimInv_def
    proof (intro conjI allI impI)
      fix k r'
      assume a: "k < length (workers (s\<lparr>mgr := m', workers := ?ws[i := st']\<rparr>)) \<and>
        holds (workers (s\<lparr>mgr := m', workers := ?ws[i := st']\<rparr>) ! k) = Some r'"
      show "resetsInProgress (mgr (s\<lparr>mgr := m', workers := ?ws[i := st']\<rparr>))
          (resetReq_id join r') = Some r'"
      proof (cases "k = i")
        case True
        with a i release show ?thesis by simp
      next
        case False
        with a have "k < length ?ws" "holds (?ws ! k) = Some r'" by simp_all
        with J1 other False release(3) show ?thesis by simp
      qed
    next
      fix k l r1 r2
      assume a: "k < length (workers (s\<lparr>mgr := m', workers := ?ws[i := st']\<rparr>)) \<and>
        l < length (workers (s\<lparr>mgr := m', workers := ?ws[i := st']\<rparr>)) \<and> k \<noteq> l \<and>
        holds (workers (s\<lparr>mgr := m', workers := ?ws[i := st']\<rparr>) ! k) = Some r1 \<and>
        holds (workers (s\<lparr>mgr := m', workers := ?ws[i := st']\<rparr>) ! l) = Some r2"
      then have kl: "k < length ?ws" "l < length ?ws" "k \<noteq> l" by simp_all
      have "k \<noteq> i" "l \<noteq> i" using a i release(2) by auto
      with a have "holds (?ws ! k) = Some r1" "holds (?ws ! l) = Some r2" by simp_all
      with J2 kl show "resetReq_id join r1 \<noteq> resetReq_id join r2" by blast
    qed
  qed
qed

lemma claimInv_step:
  assumes "claimInv join s" and "step join s a = Next s'"
  shows "claimInv join s'"
proof (cases a)
  case (APull sel s1 r1 b1 d1 dd1)
  with assms(2) obtain res m' where
    "Pull join (mgr s) sel s1 r1 b1 d1 dd1 = Next (res, m')" "s' = s\<lparr>mgr := m'\<rparr>"
    by (auto split: outcome.splits)
  with assms(1) show ?thesis
    by (auto intro!: claimInv_frame[of join s] dest: Pull_inProgress)
next
  case (ADelete sel d1 dd1 r1 b1)
  with assms(2) obtain res m' where
    "Delete (mgr s) sel d1 dd1 r1 b1 = Next (res, m')" "s' = s\<lparr>mgr := m'\<rparr>"
    by (auto split: outcome.splits)
  with assms(1) show ?thesis
    by (auto intro!: claimInv_frame[of join s] dest: Delete_inProgress)
next
  case (ALateSend i)
  with assms(2) obtain m' where "lateSend (mgr s) i = Next m'" "s' = s\<lparr>mgr := m'\<rparr>"
    by (auto split: outcome.splits)
  with assms(1) show ?thesis
    by (auto intro!: claimInv_frame[of join s] dest: lateSend_inProgress)
next
  case (AWorker i wa)
  with assms(2) obtain m' st' where i: "i < length (workers s)"
    and w: "resetWorker join (mgr s) (workers s ! i) wa = Next (m', st')"
    and s': "s' = s\<lparr>mgr := m', workers := (workers s)[i := st']\<rparr>"
    by (auto split: outcome.splits if_splits)
  show ?thesis unfolding s' by (rule claimInv_worker[OF assms(1) i w])
next
  case AResetLoop
  with assms show ?thesis
    by (auto intro!: claimInv_frame[of join s] dest: resetLoop_inProgress)
next
  case (ADeleteLoop da)
  with assms(2) obtain m' st' where
    "deleteLoop (mgr s) (deleteSt s) da = Next (m', st')" "s' = s\<lparr>mgr := m', deleteSt := st'\<rparr>"
    by (auto split: outcome.splits)
  with assms(1) show ?thesis
    by (auto intro!: claimInv_frame[of join s] dest: deleteLoop_inProgress)
next
  case AShutdown
  with assms(2) obtain m' st' where
    "Shutdown (mgr s) (shutdownSt s) = Next (m', st')" "s' = s\<lparr>mgr := m', shutdownSt := st'\<rparr>"
    by (auto split: outcome.splits)
  with assms(1) show ?thesis
    by (auto intro!: claimInv_frame[of join s] dest: Shutdown_inProgress)
qed

lemma claimInv_init: "claimInv join (NewAutogitManager n)"
  by (auto simp: claimInv_def NewAutogitManager_def)

lemma claimInv_run:
  "run join (NewAutogitManager n) acts = Next s \<Longrightarrow> claimInv join s"
  by (rule run_invariant[where P="claimInv join", OF claimInv_step claimInv_init])

text \<open>
  C2.  In every state the manager reaches from \<^verbatim>\<open>NewAutogitManager\<close>, under
  any schedule of its goroutines and callers, two different workers never hold
  the in-progress claim for requests of the same identity, and a holder's
  request is the one in the in-progress map.  \<^verbatim>\<open>markResetReqInProgress\<close>
  claims, in one step under the lock, exactly when the map has no entry for the
  identity: it then inserts the request there and removes the identity from the
  queued map, and the worker goes on to run the job.  Otherwise it changes
  nothing and returns the channel of the request in the map; the worker then
  blocks until that channel is closed and calls \<^verbatim>\<open>markResetReqInProgress\<close>
  again.
\<close>

theorem in_progress_claim_exclusive:
  assumes "run join (NewAutogitManager n) acts = Next s"
  shows
   "(\<forall>i j r1 r2. i < length (workers s) \<and> j < length (workers s) \<and> i \<noteq> j \<and>
        holds (workers s ! i) = Some r1 \<and> holds (workers s ! j) = Some r2 \<longrightarrow>
        resetReq_id join r1 \<noteq> resetReq_id join r2) \<and>
    (\<forall>i r. i < length (workers s) \<and> holds (workers s ! i) = Some r \<longrightarrow>
        resetsInProgress (mgr s) (resetReq_id join r) = Some r) \<and>
    (\<forall>m req. resetsInProgress m (resetReq_id join req) = None \<longrightarrow>
        markResetReqInProgress join m req =
          (None, m\<lparr>resetsInQueue := (resetsInQueue m)(resetReq_id join req := None),
                    resetsInProgress := (resetsInProgress m)(resetReq_id join req \<mapsto> req)\<rparr>) \<and>
        resetWorker join m (WMark req) Mark =
          Next (m\<lparr>resetsInQueue := (resetsInQueue m)(resetReq_id join req := None),
                  resetsInProgress := (resetsInProgress m)(resetReq_id join req \<mapsto> req)\<rparr>,
                WRun req)) \<and>
    (\<forall>m req occ. resetsInProgress m (resetReq_id join req) = Some occ \<longrightarrow>
        markResetReqInProgress join m req = (Some (doneCh occ), m) \<and>
        resetWorker join m (WMark req) Mark = Next (m, WWait req (doneCh occ))) \<and>
    (\<forall>m req waitCh a. resetWorker join m (WWait req waitCh) a =
        (if a = Wake \<and> waitCh \<in> closedChans m then Next (m, WMark req) else Blocked))"
proof -
  from claimInv_run[OF assms] have inv: "claimInv join s" .
  have a: "\<forall>i j r1 r2. i < length (workers s) \<and> j < length (workers s) \<and> i \<noteq> j \<and>
        holds (workers s ! i) = Some r1 \<and> holds (workers s ! j) = Some r2 \<longrightarrow>
        resetReq_id join r1 \<noteq> resetReq_id join r2"
    and b: "\<forall>i r. i < length (workers s) \<and> holds (workers s ! i) = Some r \<longrightarrow>
        resetsInProgress (mgr s) (resetReq_id join r) = Some r"
    using inv unfolding claimInv_def by blast+
  have c: "\<forall>m req. resetsInProgress m (resetReq_id join req) = None \<longrightarrow>
        markResetReqInProgress join m req =
          (None, m\<lparr>resetsInQueue := (resetsInQueue m)(resetReq_id join req := None),
                    resetsInProgress := (resetsInProgress m)(resetReq_id join req \<mapsto> req)\<rparr>) \<and>
        resetWorker join m (WMark req) Mark =
          Next (m\<lparr>resetsInQueue := (resetsInQueue m)(resetReq_id join req := None),
                  resetsInProgress := (resetsInProgress m)(resetReq_id join req \<mapsto> req)\<rparr>,
                WRun req)"
    by (simp add: markResetReqInProgress_free)
  have d: "\<forall>m req occ. resetsInProgress m (resetReq_id join req) = Some occ \<longrightarrow>
        markResetReqInProgress join m req = (Some (doneCh occ), m) \<and>
        resetWorker join m (WMark req) Mark = Next (m, WWait req (doneCh occ))"
    by (simp add: markResetReqInProgress_taken)
  have e: "\<forall>m req waitCh a. resetWorker join m (WWait req waitCh) a =
        (if a = Wake \<and> waitCh \<in> closedChans m then Next (m, WMark req) else Blocked)"
  proof (intro allI)
    fix m req waitCh a
    show "resetWorker join m (WWait req waitCh) a =
        (if a = Wake \<and> waitCh \<in> closedChans m then Next (m, WMark req) else Blocked)"
      by (cases a) simp_all
  qed
  from a b c d e show ?thesis by (intro conjI)
qed

theorem in_progress_claim_exclusive_witness:
  "\<exists>s. run slashJoin (NewAutogitManager 3) busySchedule = Next s \<and>
     workers s = [WRun reqA, WWait reqB 2, WRun reqC] \<and>
     holds (workers s ! 0) = Some reqA \<and>
     holds (workers s ! 2) = Some reqC \<and>
     resetReq_id slashJoin reqA \<noteq> resetReq_id slashJoin reqC \<and>
     resetsInProgress (mgr s) (resetReq_id slashJoin reqB) = Some reqA \<and>
     resetWorker slashJoin (mgr s) (WMark reqB) Mark = Next (mgr s, WWait reqB 2) \<and>
     resetWorker slashJoin (mgr s) (WWait reqB 2) Wake = Blocked"
proof -
  have "\<exists>s. run slashJoin (NewAutogitManager 3) busySchedule = Next s"
    by (simp add: busySchedule_def NewAutogitManager_def Pull_def makeChan_def queueReset_def
        chSend_def resetReq_id_def markResetReqInProgress_def)
  then obtain s where r: "run slashJoin (NewAutogitManager 3) busySchedule = Next s"
    by blast
  note T = in_progress_claim_exclusive[OF r]
  have w: "workers s = [WRun reqA, WWait reqB 2, WRun reqC]"
    and c: "closedChans (mgr s) = {}"
    using r[symmetric]
    by (simp_all add: busySchedule_def NewAutogitManager_def Pull_def makeChan_def
        queueReset_def chSend_def resetReq_id_def markResetReqInProgress_def
        reqA_def reqB_def reqC_def eval_nat_numeral)
  have h: "holds (workers s ! 0) = Some reqA" "holds (workers s ! 2) = Some reqC"
    "(0::nat) < length (workers s)" "(2::nat) < length (workers s)"
    by (simp_all add: w)
  from T h have d: "resetReq_id slashJoin reqA \<noteq> resetReq_id slashJoin reqC"
    by (metis zero_neq_numeral)
  from T h have p: "resetsInProgress (mgr s) (resetReq_id slashJoin reqA) = Some reqA"
    by blast
  have i: "resetReq_id slashJoin reqB = resetReq_id slashJoin reqA"
    by (simp add: resetReq_id_def reqA_def reqB_def)
  from T p i have m: "resetWorker slashJoin (mgr s) (WMark reqB) Mark
      = Next (mgr s, WWait reqB (doneCh reqA))"
    by simp
  from T c have k: "resetWorker slashJoin (mgr s) (WWait reqB 2) Wake = Blocked"
    by simp
  have "doneCh reqA = 2" by (simp add: reqA_def)
  with r w h d p i m k show ?thesis by auto
qed

subsection \<open>The channels of the requests\<close>

lemma sum_wown_update:
  "i < length ws \<Longrightarrow>
   sum_list (map wown (ws[i := st'])) + wown (ws ! i) = sum_list (map wown ws) + wown st'"
proof (induction ws arbitrary: i)
  case Nil
  then show ?case by simp
next
  case (Cons w ws)
  show ?case
  proof (cases i)
    case 0
    then show ?thesis by simp
  next
    case (Suc k)
    with Cons.prems have "k < length ws" by simp
    from Cons.IH[OF this] Suc show ?thesis
      by (simp add: add.assoc add.left_commute)
  qed
qed

lemma mset_without_nth:
  "i < length xs \<Longrightarrow> mset (take i xs @ drop (Suc i) xs) + {#xs ! i#} = mset xs"
proof -
  assume "i < length xs"
  then have "xs = take i xs @ xs ! i # drop (Suc i) xs"
    by (rule id_take_nth_drop)
  then have "mset xs = mset (take i xs @ xs ! i # drop (Suc i) xs)" by simp
  then show ?thesis by simp
qed

text \<open>What a worker's step does to the channels on their way.\<close>

lemma resetWorker_owned:
  assumes "resetWorker join m st a = Next (m', st')"
  shows "queueDoneCh m' = queueDoneCh m \<and> deleteDoneCh m' = deleteDoneCh m \<and>
         nextChan m' = nextChan m \<and> lateSenders m' = lateSenders m \<and>
         deleteQueue m' = deleteQueue m \<and>
         inClosed (resetQueue m') = inClosed (resetQueue m) \<and>
         (items (resetQueue m) = [] \<longrightarrow> items (resetQueue m') = []) \<and>
         st \<noteq> WExit \<and>
         (st' = WExit \<longrightarrow> inClosed (resetQueue m) \<and> items (resetQueue m) = []) \<and>
         (mset (map doneCh (items (resetQueue m'))) + wown st'
            = mset (map doneCh (items (resetQueue m))) + wown st \<and>
          closedChans m' = closedChans m
          \<or> (\<exists>req. st = WClose req \<and> st' = WIdle \<and>
                items (resetQueue m') = items (resetQueue m) \<and>
                doneCh req \<notin> closedChans m \<and>
                closedChans m' = insert (doneCh req) (closedChans m)))"
  using assms
  by (cases st; cases a)
     (auto simp: wown_def markResetReqInProgress_def clearFromInProgress_def closeChan_def
        split: list.splits option.splits if_splits)

lemma chanInv_same:
  assumes "chanInv s" and "ownedChans s' = ownedChans s"
    and "closedChans (mgr s') = closedChans (mgr s)"
    and "nextChan (mgr s') = nextChan (mgr s)"
    and "queueDoneCh (mgr s') = queueDoneCh (mgr s)"
    and "deleteDoneCh (mgr s') = deleteDoneCh (mgr s)"
  shows "chanInv s'"
  using assms by (simp add: chanInv_def)

lemma chanInv_retire:
  assumes "chanInv s" and "ownedChans s' + {#c#} = ownedChans s"
    and "closedChans (mgr s') = insert c (closedChans (mgr s))"
    and "nextChan (mgr s') = nextChan (mgr s)"
    and "queueDoneCh (mgr s') = queueDoneCh (mgr s)"
    and "deleteDoneCh (mgr s') = deleteDoneCh (mgr s)"
  shows "chanInv s'"
proof -
  from assms(1) have o: "\<And>x. x \<in># ownedChans s \<Longrightarrow>
      2 \<le> x \<and> x < nextChan (mgr s) \<and> x \<notin> closedChans (mgr s) \<and> count (ownedChans s) x = 1"
    and cl: "\<And>x. x \<in> closedChans (mgr s) \<Longrightarrow> x < nextChan (mgr s)"
    by (simp_all add: chanInv_def)
  have cin: "c \<in># ownedChans s"
    using assms(2)[symmetric] by simp
  have c1: "count (ownedChans s) c = 1"
    using o[OF cin] by simp
  have cnt: "\<And>x. count (ownedChans s) x = count (ownedChans s') x + (if x = c then 1 else 0)"
    using assms(2)[symmetric] by simp
  have own: "\<And>x. x \<in># ownedChans s' \<Longrightarrow>
      2 \<le> x \<and> x < nextChan (mgr s') \<and> x \<notin> closedChans (mgr s') \<and> count (ownedChans s') x = 1"
  proof -
    fix x
    assume x: "x \<in># ownedChans s'"
    then have xs: "x \<in># ownedChans s" using assms(2)[symmetric] by simp
    have "x \<noteq> c"
    proof
      assume "x = c"
      with x have "count (ownedChans s') c \<ge> 1" by (simp add: Suc_le_eq)
      with cnt[of c] c1 show False by simp
    qed
    with o[OF xs] cnt[of x] assms(3,4) show
      "2 \<le> x \<and> x < nextChan (mgr s') \<and> x \<notin> closedChans (mgr s') \<and> count (ownedChans s') x = 1"
      by simp
  qed
  have clo: "\<And>x. x \<in> closedChans (mgr s') \<Longrightarrow> x < nextChan (mgr s')"
    using cl o[OF cin] assms(3,4) by auto
  from assms(1,4,5,6) own clo show ?thesis by (simp add: chanInv_def)
qed

lemma chanInv_new:
  assumes "chanInv s"
    and "ownedChans s' = ownedChans s \<or> ownedChans s' = ownedChans s + {#nextChan (mgr s)#}"
    and "closedChans (mgr s') = closedChans (mgr s)"
    and "nextChan (mgr s') = Suc (nextChan (mgr s))"
    and "queueDoneCh (mgr s') = queueDoneCh (mgr s)"
    and "deleteDoneCh (mgr s') = deleteDoneCh (mgr s)"
  shows "chanInv s'"
proof -
  from assms(1) have o: "\<And>x. x \<in># ownedChans s \<Longrightarrow>
      2 \<le> x \<and> x < nextChan (mgr s) \<and> x \<notin> closedChans (mgr s) \<and> count (ownedChans s) x = 1"
    and n: "2 \<le> nextChan (mgr s)"
    and cl: "\<And>x. x \<in> closedChans (mgr s) \<Longrightarrow> x < nextChan (mgr s)"
    by (simp_all add: chanInv_def)
  have fresh: "nextChan (mgr s) \<notin># ownedChans s"
    using o[of "nextChan (mgr s)"] by auto
  have nc: "nextChan (mgr s) \<notin> closedChans (mgr s)"
    using cl[of "nextChan (mgr s)"] by auto
  have own: "\<And>x. x \<in># ownedChans s' \<Longrightarrow>
      2 \<le> x \<and> x < nextChan (mgr s') \<and> x \<notin> closedChans (mgr s') \<and> count (ownedChans s') x = 1"
  proof -
    fix x
    assume xin: "x \<in># ownedChans s'"
    from assms(2) show
      "2 \<le> x \<and> x < nextChan (mgr s') \<and> x \<notin> closedChans (mgr s') \<and> count (ownedChans s') x = 1"
    proof
      assume e: "ownedChans s' = ownedChans s"
      with xin o[of x] assms(3,4) show ?thesis by simp
    next
      assume e: "ownedChans s' = ownedChans s + {#nextChan (mgr s)#}"
      show ?thesis
      proof (cases "x = nextChan (mgr s)")
        case True
        with fresh n nc assms(3,4) show ?thesis
          by (simp add: e count_eq_zero_iff)
      next
        case False
        with xin e have "x \<in># ownedChans s" by simp
        from o[OF this] False assms(3,4) show ?thesis by (simp add: e)
      qed
    qed
  qed
  have clo: "\<And>x. x \<in> closedChans (mgr s') \<Longrightarrow> x < nextChan (mgr s')"
    using cl assms(3,4) by (auto simp: less_Suc_eq)
  from assms(1,4,5,6) own clo show ?thesis by (simp add: chanInv_def)
qed

lemma chanInv_close_own:
  assumes "chanInv s" and "ownedChans s' = ownedChans s"
    and "closedChans (mgr s') = insert c (closedChans (mgr s))" and "c < 2"
    and "nextChan (mgr s') = nextChan (mgr s)"
    and "queueDoneCh (mgr s') = queueDoneCh (mgr s)"
    and "deleteDoneCh (mgr s') = deleteDoneCh (mgr s)"
  shows "chanInv s'"
proof -
  from assms(1) have o: "\<And>x. x \<in># ownedChans s \<Longrightarrow>
      2 \<le> x \<and> x < nextChan (mgr s) \<and> x \<notin> closedChans (mgr s) \<and> count (ownedChans s) x = 1"
    and n: "2 \<le> nextChan (mgr s)"
    and cl: "\<And>x. x \<in> closedChans (mgr s) \<Longrightarrow> x < nextChan (mgr s)"
    by (simp_all add: chanInv_def)
  have own: "\<And>x. x \<in># ownedChans s' \<Longrightarrow>
      2 \<le> x \<and> x < nextChan (mgr s') \<and> x \<notin> closedChans (mgr s') \<and> count (ownedChans s') x = 1"
  proof -
    fix x
    assume "x \<in># ownedChans s'"
    then have x: "x \<in># ownedChans s" by (simp add: assms(2))
    from o[OF x] have "2 \<le> x" by simp
    with assms(4) have "x \<noteq> c" by simp
    with o[OF x] assms(2,3,5) show
      "2 \<le> x \<and> x < nextChan (mgr s') \<and> x \<notin> closedChans (mgr s') \<and> count (ownedChans s') x = 1"
      by simp
  qed
  have clo: "\<And>x. x \<in> closedChans (mgr s') \<Longrightarrow> x < nextChan (mgr s')"
    using cl n assms(3,4,5) by auto
  from assms(1,5,6,7) own clo show ?thesis by (simp add: chanInv_def)
qed

lemma ownedChans_worker:
  assumes i: "i < length (workers s)"
    and st: "resetWorker join (mgr s) (workers s ! i) a = Next (m', st')"
  shows "(ownedChans (s\<lparr>mgr := m', workers := (workers s)[i := st']\<rparr>) = ownedChans s \<and>
          closedChans m' = closedChans (mgr s)) \<or>
         (\<exists>req. workers s ! i = WClose req \<and> st' = WIdle \<and>
            doneCh req \<notin> closedChans (mgr s) \<and>
            ownedChans (s\<lparr>mgr := m', workers := (workers s)[i := st']\<rparr>) + {#doneCh req#}
              = ownedChans s \<and>
            closedChans m' = insert (doneCh req) (closedChans (mgr s)))"
proof -
  let ?ws = "workers s"
  note E = resetWorker_owned[OF st]
  from E have fr: "lateSenders m' = lateSenders (mgr s)" "deleteQueue m' = deleteQueue (mgr s)"
    by simp_all
  note U = sum_wown_update[OF i, of st']
  from E consider
    (move) "mset (map doneCh (items (resetQueue m'))) + wown st'
            = mset (map doneCh (items (resetQueue (mgr s)))) + wown (?ws ! i)"
      "closedChans m' = closedChans (mgr s)"
  | (close) req where "?ws ! i = WClose req" "st' = WIdle"
      "items (resetQueue m') = items (resetQueue (mgr s))"
      "doneCh req \<notin> closedChans (mgr s)"
      "closedChans m' = insert (doneCh req) (closedChans (mgr s))"
    by blast
  then show ?thesis
  proof cases
    case move
    let ?A' = "mset (map doneCh (items (resetQueue m')))"
    let ?A = "mset (map doneCh (items (resetQueue (mgr s))))"
    let ?S' = "sum_list (map wown (?ws[i := st']))"
    let ?S = "sum_list (map wown ?ws)"
    have "(?A' + ?S') + (wown (?ws ! i) + wown st') = (?A' + wown st') + (?S' + wown (?ws ! i))"
      by (simp add: ac_simps)
    also have "\<dots> = (?A + wown (?ws ! i)) + (?S + wown st')"
      by (simp only: move(1) U)
    also have "\<dots> = (?A + ?S) + (wown (?ws ! i) + wown st')"
      by (simp add: ac_simps)
    finally have "?A' + ?S' = ?A + ?S" by simp
    then have "ownedChans (s\<lparr>mgr := m', workers := ?ws[i := st']\<rparr>) = ownedChans s"
      by (simp add: ownedChans_def fr ac_simps)
    with move(2) show ?thesis by blast
  next
    case close
    from U close(1,2) have "sum_list (map wown (?ws[i := st'])) + {#doneCh req#}
        = sum_list (map wown ?ws)"
      by (simp add: wown_def)
    then have "ownedChans (s\<lparr>mgr := m', workers := ?ws[i := st']\<rparr>) + {#doneCh req#}
        = ownedChans s"
      by (simp add: ownedChans_def fr close(3) ac_simps)
    with close show ?thesis by blast
  qed
qed

lemma Pull_owned:
  assumes "Pull join m sel sT sR bN dT dD = Next (res, m')"
  shows "closedChans m' = closedChans m \<and> nextChan m' = Suc (nextChan m) \<and>
         queueDoneCh m' = queueDoneCh m \<and> deleteDoneCh m' = deleteDoneCh m \<and>
         deleteQueue m' = deleteQueue m \<and>
         inClosed (resetQueue m') = inClosed (resetQueue m) \<and>
         (inClosed (resetQueue m) \<longrightarrow> items (resetQueue m') = items (resetQueue m)) \<and>
         (mset (map doneCh (items (resetQueue m'))) + mset (map doneCh (lateSenders m'))
            = mset (map doneCh (items (resetQueue m))) + mset (map doneCh (lateSenders m))
          \<or> mset (map doneCh (items (resetQueue m'))) + mset (map doneCh (lateSenders m'))
            = mset (map doneCh (items (resetQueue m))) + mset (map doneCh (lateSenders m))
              + {#nextChan m#})"
  using assms
  by (auto simp: Pull_def makeChan_def queueReset_def chSend_def Let_def
      split: option.splits selectCase.splits if_splits)

lemma Delete_owned:
  assumes "Delete m sel dT dD rp bN = Next (res, m')"
  shows "closedChans m' = closedChans m \<and> nextChan m' = Suc (nextChan m) \<and>
         queueDoneCh m' = queueDoneCh m \<and> deleteDoneCh m' = deleteDoneCh m \<and>
         resetQueue m' = resetQueue m \<and> lateSenders m' = lateSenders m \<and>
         inClosed (deleteQueue m') = inClosed (deleteQueue m) \<and>
         (inClosed (deleteQueue m) \<longrightarrow> items (deleteQueue m') = items (deleteQueue m)) \<and>
         (mset (map delDoneCh (items (deleteQueue m')))
            = mset (map delDoneCh (items (deleteQueue m)))
          \<or> mset (map delDoneCh (items (deleteQueue m')))
            = mset (map delDoneCh (items (deleteQueue m))) + {#nextChan m#})"
  using assms
  by (auto simp: Delete_def makeChan_def chSend_def Let_def
      split: selectCase.splits if_splits)

lemma lateSend_owned:
  assumes "lateSend m i = Next m'"
  shows "closedChans m' = closedChans m \<and> nextChan m' = nextChan m \<and>
         queueDoneCh m' = queueDoneCh m \<and> deleteDoneCh m' = deleteDoneCh m \<and>
         deleteQueue m' = deleteQueue m \<and>
         inClosed (resetQueue m') = inClosed (resetQueue m) \<and>
         \<not> inClosed (resetQueue m) \<and>
         mset (map doneCh (items (resetQueue m'))) + mset (map doneCh (lateSenders m'))
            = mset (map doneCh (items (resetQueue m))) + mset (map doneCh (lateSenders m))"
proof -
  from assms have i: "i < length (lateSenders m)" and o: "\<not> inClosed (resetQueue m)"
    and m': "m' = m\<lparr>resetQueue := (resetQueue m)\<lparr>items := items (resetQueue m) @ [lateSenders m ! i]\<rparr>,
                     lateSenders := take i (lateSenders m) @ drop (Suc i) (lateSenders m)\<rparr>"
    by (auto simp: lateSend_def chSend_def split: if_splits)
  from mset_without_nth[OF i]
  have "mset (map doneCh (take i (lateSenders m) @ drop (Suc i) (lateSenders m)))
          + {#doneCh (lateSenders m ! i)#} = mset (map doneCh (lateSenders m))"
    by (metis image_mset_single image_mset_union mset_map)
  then show ?thesis using o by (simp add: m' ac_simps)
qed

lemma deleteLoop_owned:
  assumes "deleteLoop m st a = Next (m', st')"
  shows "queueDoneCh m' = queueDoneCh m \<and> deleteDoneCh m' = deleteDoneCh m \<and>
         nextChan m' = nextChan m \<and> lateSenders m' = lateSenders m \<and>
         resetQueue m' = resetQueue m \<and>
         inClosed (deleteQueue m') = inClosed (deleteQueue m) \<and>
         (items (deleteQueue m) = [] \<longrightarrow> items (deleteQueue m') = []) \<and>
         st \<noteq> DExit \<and>
         (mset (map delDoneCh (items (deleteQueue m'))) + down st'
            = mset (map delDoneCh (items (deleteQueue m))) + down st \<and>
          closedChans m' = closedChans m \<and> st' \<noteq> DExit
          \<or> (\<exists>req. st = DClose req \<and> st' = DIdle \<and>
                items (deleteQueue m') = items (deleteQueue m) \<and>
                delDoneCh req \<notin> closedChans m \<and>
                closedChans m' = insert (delDoneCh req) (closedChans m))
          \<or> (st = DIdle \<and> st' = DExit \<and> deleteQueue m' = deleteQueue m \<and>
                inClosed (deleteQueue m) \<and> items (deleteQueue m) = [] \<and>
                deleteDoneCh m \<notin> closedChans m \<and>
                closedChans m' = insert (deleteDoneCh m) (closedChans m)))"
  using assms
  by (cases st; cases a)
     (auto simp: down_def closeChan_def split: list.splits if_splits)

lemma Shutdown_owned:
  assumes "Shutdown m st = Next (m', st')"
  shows "queueDoneCh m' = queueDoneCh m \<and> deleteDoneCh m' = deleteDoneCh m \<and>
         nextChan m' = nextChan m \<and> lateSenders m' = lateSenders m \<and>
         closedChans m' = closedChans m \<and>
         items (resetQueue m') = items (resetQueue m) \<and>
         items (deleteQueue m') = items (deleteQueue m) \<and>
         (st = SNotCalled \<and> st' = SCloseDelete \<and> inClosed (resetQueue m') \<and>
            inClosed (deleteQueue m') = inClosed (deleteQueue m)
          \<or> st = SCloseDelete \<and> st' = SWaitQueueDone \<and> inClosed (deleteQueue m') \<and>
            inClosed (resetQueue m') = inClosed (resetQueue m)
          \<or> st = SWaitQueueDone \<and> st' = SWaitDeleteDone \<and> queueDoneCh m \<in> closedChans m \<and>
            m' = m
          \<or> st = SWaitDeleteDone \<and> st' = SReturned \<and> deleteDoneCh m \<in> closedChans m \<and>
            m' = m)"
  using assms
  by (cases st) (auto simp: chClose_def split: if_splits)

lemma resetLoop_owned:
  assumes "resetLoop s = Next s'"
  shows "\<not> resetLoopDone s \<and> list_all (\<lambda>st. st = WExit) (workers s) \<and>
         queueDoneCh (mgr s) \<notin> closedChans (mgr s) \<and>
         s' = s\<lparr>mgr := (mgr s)\<lparr>closedChans := insert (queueDoneCh (mgr s)) (closedChans (mgr s))\<rparr>,
                 resetLoopDone := True\<rparr>"
  using assms by (auto simp: resetLoop_def closeChan_def split: if_splits)

lemma chanInv_step:
  assumes c: "chanInv s" and f: "flagInv s" and st: "step join s a = Next s'"
  shows "chanInv s'"
proof (cases a)
  case (APull sel sT sR bN dT dD)
  with st obtain res m' where
    p: "Pull join (mgr s) sel sT sR bN dT dD = Next (res, m')" and s': "s' = s\<lparr>mgr := m'\<rparr>"
    by (auto split: outcome.splits)
  note E = Pull_owned[OF p]
  from E have "ownedChans s' = ownedChans s \<or>
      ownedChans s' = ownedChans s + {#nextChan (mgr s)#}"
    by (auto simp: ownedChans_def s' ac_simps)
  with c E show ?thesis
    by (intro chanInv_new[of s s']) (simp_all add: s')
next
  case (ADelete sel dT dD rp bN)
  with st obtain res m' where
    p: "Delete (mgr s) sel dT dD rp bN = Next (res, m')" and s': "s' = s\<lparr>mgr := m'\<rparr>"
    by (auto split: outcome.splits)
  note E = Delete_owned[OF p]
  from E have "ownedChans s' = ownedChans s \<or>
      ownedChans s' = ownedChans s + {#nextChan (mgr s)#}"
    by (auto simp: ownedChans_def s' ac_simps)
  with c E show ?thesis
    by (intro chanInv_new[of s s']) (simp_all add: s')
next
  case (ALateSend i)
  with st obtain m' where p: "lateSend (mgr s) i = Next m'" and s': "s' = s\<lparr>mgr := m'\<rparr>"
    by (auto split: outcome.splits)
  note E = lateSend_owned[OF p]
  from E have "ownedChans s' = ownedChans s"
    by (simp add: ownedChans_def s')
  with c E show ?thesis
    by (intro chanInv_same[of s s']) (simp_all add: s')
next
  case (AWorker i wa)
  with st obtain m' st' where i: "i < length (workers s)"
    and w: "resetWorker join (mgr s) (workers s ! i) wa = Next (m', st')"
    and s': "s' = s\<lparr>mgr := m', workers := (workers s)[i := st']\<rparr>"
    by (auto split: outcome.splits if_splits)
  note E = resetWorker_owned[OF w]
  from ownedChans_worker[OF i w] show ?thesis
  proof
    assume "ownedChans (s\<lparr>mgr := m', workers := (workers s)[i := st']\<rparr>) = ownedChans s \<and>
          closedChans m' = closedChans (mgr s)"
    with c E show ?thesis
      by (intro chanInv_same[of s s']) (simp_all add: s')
  next
    assume "\<exists>req. workers s ! i = WClose req \<and> st' = WIdle \<and>
            doneCh req \<notin> closedChans (mgr s) \<and>
            ownedChans (s\<lparr>mgr := m', workers := (workers s)[i := st']\<rparr>) + {#doneCh req#}
              = ownedChans s \<and>
            closedChans m' = insert (doneCh req) (closedChans (mgr s))"
    then obtain req where "workers s ! i = WClose req \<and> st' = WIdle \<and>
            doneCh req \<notin> closedChans (mgr s) \<and>
            ownedChans (s\<lparr>mgr := m', workers := (workers s)[i := st']\<rparr>) + {#doneCh req#}
              = ownedChans s \<and>
            closedChans m' = insert (doneCh req) (closedChans (mgr s))" ..
    then have "ownedChans s' + {#doneCh req#} = ownedChans s"
      "closedChans (mgr s') = insert (doneCh req) (closedChans (mgr s))"
      by (auto simp: s')
    with c E show ?thesis
      by (intro chanInv_retire[of s s' "doneCh req"]) (simp_all add: s')
  qed
next
  case AResetLoop
  with st have "resetLoop s = Next s'" by simp
  note E = resetLoop_owned[OF this]
  from c have "queueDoneCh (mgr s) < 2" by (simp add: chanInv_def)
  with c E show ?thesis
    by (intro chanInv_close_own[of s s' "queueDoneCh (mgr s)"])
       (simp_all add: ownedChans_def)
next
  case (ADeleteLoop da)
  with st obtain m' st' where
    p: "deleteLoop (mgr s) (deleteSt s) da = Next (m', st')"
    and s': "s' = s\<lparr>mgr := m', deleteSt := st'\<rparr>"
    by (auto split: outcome.splits)
  note E = deleteLoop_owned[OF p]
  from E consider
    (move) "mset (map delDoneCh (items (deleteQueue m'))) + down st'
            = mset (map delDoneCh (items (deleteQueue (mgr s)))) + down (deleteSt s)"
      "closedChans m' = closedChans (mgr s)"
  | (close) req where "deleteSt s = DClose req" "st' = DIdle"
      "items (deleteQueue m') = items (deleteQueue (mgr s))"
      "closedChans m' = insert (delDoneCh req) (closedChans (mgr s))"
  | (exit) "deleteSt s = DIdle" "st' = DExit" "deleteQueue m' = deleteQueue (mgr s)"
      "closedChans m' = insert (deleteDoneCh (mgr s)) (closedChans (mgr s))"
    by blast
  then show ?thesis
  proof cases
    case move
    from move(1) E have "ownedChans s' = ownedChans s"
      by (simp add: ownedChans_def s' ac_simps)
    with c E move(2) show ?thesis
      by (intro chanInv_same[of s s']) (simp_all add: s')
  next
    case close
    from close E have "ownedChans s' + {#delDoneCh req#} = ownedChans s"
      by (simp add: ownedChans_def s' down_def)
    with c E close(4) show ?thesis
      by (intro chanInv_retire[of s s' "delDoneCh req"]) (simp_all add: s')
  next
    case exit
    from exit E have o: "ownedChans s' = ownedChans s"
      by (simp add: ownedChans_def s' down_def)
    from c have "deleteDoneCh (mgr s) < 2" by (simp add: chanInv_def)
    with c E exit(4) o show ?thesis
      by (intro chanInv_close_own[of s s' "deleteDoneCh (mgr s)"]) (simp_all add: s')
  qed
next
  case AShutdown
  with st obtain m' st' where
    p: "Shutdown (mgr s) (shutdownSt s) = Next (m', st')"
    and s': "s' = s\<lparr>mgr := m', shutdownSt := st'\<rparr>"
    by (auto split: outcome.splits)
  note E = Shutdown_owned[OF p]
  from E have "ownedChans s' = ownedChans s"
    by (simp add: ownedChans_def s')
  with c E show ?thesis
    by (intro chanInv_same[of s s']) (simp_all add: s')
qed

lemma wown_owned:
  assumes "i < length (workers s)" and "workers s ! i = WClose req"
  shows "doneCh req \<in># ownedChans s"
proof -
  from sum_wown_update[OF assms(1), of WIdle] assms(2)
  have "sum_list (map wown (workers s)) =
      sum_list (map wown ((workers s)[i := WIdle])) + {#doneCh req#}"
    by (simp add: wown_def)
  then show ?thesis by (simp add: ownedChans_def)
qed

lemma down_owned:
  assumes "deleteSt s = DClose req"
  shows "delDoneCh req \<in># ownedChans s"
  using assms by (simp add: ownedChans_def down_def)

lemma wreq_owned:
  assumes "i < length (workers s)" and "wreq (workers s ! i) = Some req"
  shows "doneCh req \<in># ownedChans s"
proof -
  from sum_wown_update[OF assms(1), of WIdle] assms(2)
  have "sum_list (map wown (workers s)) =
      sum_list (map wown ((workers s)[i := WIdle])) + {#doneCh req#}"
    by (simp add: wown_def)
  then show ?thesis by (simp add: ownedChans_def)
qed

subsection \<open>The loops against the queues and channels\<close>

lemma flagInvD:
  assumes "flagInv s"
  shows "inClosed (resetQueue (mgr s)) \<longleftrightarrow> shutdownSt s \<noteq> SNotCalled"
    and "inClosed (deleteQueue (mgr s)) \<longleftrightarrow>
           shutdownSt s \<noteq> SNotCalled \<and> shutdownSt s \<noteq> SCloseDelete"
    and "shutdownSt s = SWaitDeleteDone \<or> shutdownSt s = SReturned \<Longrightarrow>
           queueDoneCh (mgr s) \<in> closedChans (mgr s)"
    and "shutdownSt s = SReturned \<Longrightarrow> deleteDoneCh (mgr s) \<in> closedChans (mgr s)"
    and "queueDoneCh (mgr s) \<in> closedChans (mgr s) \<longleftrightarrow> resetLoopDone s"
    and "resetLoopDone s \<Longrightarrow> list_all (\<lambda>st. st = WExit) (workers s)"
    and "deleteDoneCh (mgr s) \<in> closedChans (mgr s) \<longleftrightarrow> deleteSt s = DExit"
    and "WExit \<in> set (workers s) \<Longrightarrow>
           inClosed (resetQueue (mgr s)) \<and> items (resetQueue (mgr s)) = []"
    and "deleteSt s = DExit \<Longrightarrow>
           inClosed (deleteQueue (mgr s)) \<and> items (deleteQueue (mgr s)) = []"
  using assms unfolding flagInv_def by blast+

lemma flagInvI:
  assumes "inClosed (resetQueue (mgr s)) \<longleftrightarrow> shutdownSt s \<noteq> SNotCalled"
    and "inClosed (deleteQueue (mgr s)) \<longleftrightarrow>
           shutdownSt s \<noteq> SNotCalled \<and> shutdownSt s \<noteq> SCloseDelete"
    and "shutdownSt s = SWaitDeleteDone \<or> shutdownSt s = SReturned \<Longrightarrow>
           queueDoneCh (mgr s) \<in> closedChans (mgr s)"
    and "shutdownSt s = SReturned \<Longrightarrow> deleteDoneCh (mgr s) \<in> closedChans (mgr s)"
    and "queueDoneCh (mgr s) \<in> closedChans (mgr s) \<longleftrightarrow> resetLoopDone s"
    and "resetLoopDone s \<Longrightarrow> list_all (\<lambda>st. st = WExit) (workers s)"
    and "deleteDoneCh (mgr s) \<in> closedChans (mgr s) \<longleftrightarrow> deleteSt s = DExit"
    and "WExit \<in> set (workers s) \<Longrightarrow>
           inClosed (resetQueue (mgr s)) \<and> items (resetQueue (mgr s)) = []"
    and "deleteSt s = DExit \<Longrightarrow>
           inClosed (deleteQueue (mgr s)) \<and> items (deleteQueue (mgr s)) = []"
  shows "flagInv s"
  using assms unfolding flagInv_def by blast

lemma flagInv_worker:
  assumes c: "chanInv s" and f: "flagInv s" and i: "i < length (workers s)"
    and w: "resetWorker join (mgr s) (workers s ! i) a = Next (m', st')"
  shows "flagInv (s\<lparr>mgr := m', workers := (workers s)[i := st']\<rparr>)"
proof -
  let ?s' = "s\<lparr>mgr := m', workers := (workers s)[i := st']\<rparr>"
  note E = resetWorker_owned[OF w]
  note F = flagInvD[OF f]
  from c have q: "queueDoneCh (mgr s) = 0" "deleteDoneCh (mgr s) = 1"
    and own: "\<And>x. x \<in># ownedChans s \<Longrightarrow> 2 \<le> x"
    by (simp_all add: chanInv_def)
  have cl: "closedChans m' = closedChans (mgr s) \<or>
      (\<exists>x. 2 \<le> x \<and> closedChans m' = insert x (closedChans (mgr s)))"
  proof -
    from E have "closedChans m' = closedChans (mgr s) \<or>
      (\<exists>req. workers s ! i = WClose req \<and>
         closedChans m' = insert (doneCh req) (closedChans (mgr s)))"
      by blast
    then show ?thesis
    proof
      assume "closedChans m' = closedChans (mgr s)"
      then show ?thesis by simp
    next
      assume "\<exists>req. workers s ! i = WClose req \<and>
         closedChans m' = insert (doneCh req) (closedChans (mgr s))"
      then obtain req where r: "workers s ! i = WClose req"
        "closedChans m' = insert (doneCh req) (closedChans (mgr s))" by blast
      from own[OF wown_owned[OF i r(1)]] r(2) show ?thesis by blast
    qed
  qed
  have k0: "queueDoneCh m' \<in> closedChans m' \<longleftrightarrow> queueDoneCh (mgr s) \<in> closedChans (mgr s)"
    using cl E q by auto
  have k1: "deleteDoneCh m' \<in> closedChans m' \<longleftrightarrow> deleteDoneCh (mgr s) \<in> closedChans (mgr s)"
    using cl E q by auto
  have notdone: "\<not> resetLoopDone s"
  proof
    assume "resetLoopDone s"
    from F(6)[OF this] i have "workers s ! i = WExit" by (simp add: list_all_length)
    with E show False by simp
  qed
  have ex: "WExit \<in> set ((workers s)[i := st']) \<Longrightarrow>
      inClosed (resetQueue m') \<and> items (resetQueue m') = []"
  proof -
    assume "WExit \<in> set ((workers s)[i := st'])"
    then have "st' = WExit \<or> WExit \<in> set (workers s)"
      using set_update_subset_insert[of "workers s" i st'] by auto
    then show ?thesis
    proof
      assume "st' = WExit"
      with E show ?thesis by simp
    next
      assume "WExit \<in> set (workers s)"
      from F(8)[OF this] E show ?thesis by simp
    qed
  qed
  show ?thesis
  proof (rule flagInvI)
    show "inClosed (resetQueue (mgr ?s')) \<longleftrightarrow> shutdownSt ?s' \<noteq> SNotCalled"
      using F(1) E by simp
    show "inClosed (deleteQueue (mgr ?s')) \<longleftrightarrow>
           shutdownSt ?s' \<noteq> SNotCalled \<and> shutdownSt ?s' \<noteq> SCloseDelete"
      using F(2) E by simp
    show "shutdownSt ?s' = SWaitDeleteDone \<or> shutdownSt ?s' = SReturned \<Longrightarrow>
           queueDoneCh (mgr ?s') \<in> closedChans (mgr ?s')"
      using F(3) k0 by simp
    show "shutdownSt ?s' = SReturned \<Longrightarrow> deleteDoneCh (mgr ?s') \<in> closedChans (mgr ?s')"
      using F(4) k1 by simp
    show "queueDoneCh (mgr ?s') \<in> closedChans (mgr ?s') \<longleftrightarrow> resetLoopDone ?s'"
      using F(5) k0 by simp
    show "resetLoopDone ?s' \<Longrightarrow> list_all (\<lambda>st. st = WExit) (workers ?s')"
      using notdone by simp
    show "deleteDoneCh (mgr ?s') \<in> closedChans (mgr ?s') \<longleftrightarrow> deleteSt ?s' = DExit"
      using F(7) k1 by simp
    show "WExit \<in> set (workers ?s') \<Longrightarrow>
           inClosed (resetQueue (mgr ?s')) \<and> items (resetQueue (mgr ?s')) = []"
      using ex by simp
    show "deleteSt ?s' = DExit \<Longrightarrow>
           inClosed (deleteQueue (mgr ?s')) \<and> items (deleteQueue (mgr ?s')) = []"
      using F(9) E by simp
  qed
qed

lemma flagInv_Pull:
  assumes f: "flagInv s" and p: "Pull join (mgr s) sel sT sR bN dT dD = Next (res, m')"
  shows "flagInv (s\<lparr>mgr := m'\<rparr>)"
proof -
  note E = Pull_owned[OF p]
  note F = flagInvD[OF f]
  show ?thesis
  proof (rule flagInvI)
    show "WExit \<in> set (workers (s\<lparr>mgr := m'\<rparr>)) \<Longrightarrow>
           inClosed (resetQueue (mgr (s\<lparr>mgr := m'\<rparr>))) \<and>
           items (resetQueue (mgr (s\<lparr>mgr := m'\<rparr>))) = []"
      using F(8) E by simp
  qed (use F E in simp_all)
qed

lemma flagInv_Delete:
  assumes f: "flagInv s" and p: "Delete (mgr s) sel dT dD rp bN = Next (res, m')"
  shows "flagInv (s\<lparr>mgr := m'\<rparr>)"
proof -
  note E = Delete_owned[OF p]
  note F = flagInvD[OF f]
  show ?thesis
  proof (rule flagInvI)
    show "deleteSt (s\<lparr>mgr := m'\<rparr>) = DExit \<Longrightarrow>
           inClosed (deleteQueue (mgr (s\<lparr>mgr := m'\<rparr>))) \<and>
           items (deleteQueue (mgr (s\<lparr>mgr := m'\<rparr>))) = []"
      using F(9) E by simp
  qed (use F E in simp_all)
qed

lemma flagInv_lateSend:
  assumes f: "flagInv s" and p: "lateSend (mgr s) i = Next m'"
  shows "flagInv (s\<lparr>mgr := m'\<rparr>)"
proof -
  note E = lateSend_owned[OF p]
  note F = flagInvD[OF f]
  show ?thesis
  proof (rule flagInvI)
    show "WExit \<in> set (workers (s\<lparr>mgr := m'\<rparr>)) \<Longrightarrow>
           inClosed (resetQueue (mgr (s\<lparr>mgr := m'\<rparr>))) \<and>
           items (resetQueue (mgr (s\<lparr>mgr := m'\<rparr>))) = []"
      using F(8) E by simp
  qed (use F E in simp_all)
qed

lemma flagInv_resetLoop:
  assumes c: "chanInv s" and f: "flagInv s" and p: "resetLoop s = Next s'"
  shows "flagInv s'"
proof -
  note E = resetLoop_owned[OF p]
  note F = flagInvD[OF f]
  from c have q: "queueDoneCh (mgr s) = 0" "deleteDoneCh (mgr s) = 1"
    by (simp_all add: chanInv_def)
  from E have s': "s' = s\<lparr>mgr := (mgr s)\<lparr>closedChans :=
      insert (queueDoneCh (mgr s)) (closedChans (mgr s))\<rparr>, resetLoopDone := True\<rparr>"
    by simp
  show ?thesis
    unfolding s'
  proof (rule flagInvI)
  qed (use F E q in simp_all)
qed

lemma flagInv_deleteLoop:
  assumes c: "chanInv s" and f: "flagInv s"
    and p: "deleteLoop (mgr s) (deleteSt s) a = Next (m', st')"
  shows "flagInv (s\<lparr>mgr := m', deleteSt := st'\<rparr>)"
proof -
  let ?s' = "s\<lparr>mgr := m', deleteSt := st'\<rparr>"
  note E = deleteLoop_owned[OF p]
  note F = flagInvD[OF f]
  from c have q: "queueDoneCh (mgr s) = 0" "deleteDoneCh (mgr s) = 1"
    and own: "\<And>x. x \<in># ownedChans s \<Longrightarrow> 2 \<le> x"
    by (simp_all add: chanInv_def)
  from E consider
    (move) "closedChans m' = closedChans (mgr s)" "st' \<noteq> DExit"
  | (close) req where "deleteSt s = DClose req" "st' = DIdle"
      "closedChans m' = insert (delDoneCh req) (closedChans (mgr s))"
  | (exit) "deleteSt s = DIdle" "st' = DExit"
      "inClosed (deleteQueue (mgr s))" "items (deleteQueue (mgr s)) = []"
      "closedChans m' = insert (deleteDoneCh (mgr s)) (closedChans (mgr s))"
    by blast
  then show ?thesis
  proof cases
    case move
    show ?thesis
      by (rule flagInvI) (use F E move in simp_all)
  next
    case close
    from own[OF down_owned[OF close(1)]] have "2 \<le> delDoneCh req" .
    with q have n: "delDoneCh req \<noteq> queueDoneCh (mgr s)" "delDoneCh req \<noteq> deleteDoneCh (mgr s)"
      "queueDoneCh (mgr s) \<noteq> delDoneCh req" "deleteDoneCh (mgr s) \<noteq> delDoneCh req"
      by simp_all
    show ?thesis
      by (rule flagInvI) (use F E close n in simp_all)
  next
    case exit
    show ?thesis
      by (rule flagInvI) (use F E exit q in simp_all)
  qed
qed

lemma flagInv_Shutdown:
  assumes f: "flagInv s" and p: "Shutdown (mgr s) (shutdownSt s) = Next (m', st')"
  shows "flagInv (s\<lparr>mgr := m', shutdownSt := st'\<rparr>)"
proof -
  note E = Shutdown_owned[OF p]
  note F = flagInvD[OF f]
  from E consider
    (a) "shutdownSt s = SNotCalled" "st' = SCloseDelete" "inClosed (resetQueue m')"
      "inClosed (deleteQueue m') = inClosed (deleteQueue (mgr s))"
  | (b) "shutdownSt s = SCloseDelete" "st' = SWaitQueueDone" "inClosed (deleteQueue m')"
      "inClosed (resetQueue m') = inClosed (resetQueue (mgr s))"
  | (c) "shutdownSt s = SWaitQueueDone" "st' = SWaitDeleteDone"
      "queueDoneCh (mgr s) \<in> closedChans (mgr s)" "m' = mgr s"
  | (d) "shutdownSt s = SWaitDeleteDone" "st' = SReturned"
      "deleteDoneCh (mgr s) \<in> closedChans (mgr s)" "m' = mgr s"
    by blast
  then show ?thesis
  proof cases
    case a
    have x: "WExit \<notin> set (workers s)" using F(8) F(1) a(1) by blast
    have y: "deleteSt s \<noteq> DExit" using F(9) F(2) a(1) by blast
    show ?thesis
      by (rule flagInvI) (use F E a x y in simp_all)
  next
    case b
    have y: "deleteSt s \<noteq> DExit" using F(9) F(2) b(1) by blast
    show ?thesis
      by (rule flagInvI) (use F E b y in simp_all)
  next
    case c
    show ?thesis
      by (rule flagInvI) (use F c in simp_all)
  next
    case d
    show ?thesis
      by (rule flagInvI) (use F d in simp_all)
  qed
qed

lemma flagInv_step:
  assumes c: "chanInv s" and f: "flagInv s" and st: "step join s a = Next s'"
  shows "flagInv s'"
proof (cases a)
  case (APull sel sT sR bN dT dD)
  with st obtain res m' where
    p: "Pull join (mgr s) sel sT sR bN dT dD = Next (res, m')" and s': "s' = s\<lparr>mgr := m'\<rparr>"
    by (auto split: outcome.splits)
  show ?thesis unfolding s' by (rule flagInv_Pull[OF f p])
next
  case (ADelete sel dT dD rp bN)
  with st obtain res m' where
    p: "Delete (mgr s) sel dT dD rp bN = Next (res, m')" and s': "s' = s\<lparr>mgr := m'\<rparr>"
    by (auto split: outcome.splits)
  show ?thesis unfolding s' by (rule flagInv_Delete[OF f p])
next
  case (ALateSend i)
  with st obtain m' where p: "lateSend (mgr s) i = Next m'" and s': "s' = s\<lparr>mgr := m'\<rparr>"
    by (auto split: outcome.splits)
  show ?thesis unfolding s' by (rule flagInv_lateSend[OF f p])
next
  case (AWorker i wa)
  with st obtain m' st' where i: "i < length (workers s)"
    and w: "resetWorker join (mgr s) (workers s ! i) wa = Next (m', st')"
    and s': "s' = s\<lparr>mgr := m', workers := (workers s)[i := st']\<rparr>"
    by (auto split: outcome.splits if_splits)
  show ?thesis unfolding s' by (rule flagInv_worker[OF c f i w])
next
  case AResetLoop
  with st have "resetLoop s = Next s'" by simp
  then show ?thesis by (rule flagInv_resetLoop[OF c f])
next
  case (ADeleteLoop da)
  with st obtain m' st' where
    p: "deleteLoop (mgr s) (deleteSt s) da = Next (m', st')"
    and s': "s' = s\<lparr>mgr := m', deleteSt := st'\<rparr>"
    by (auto split: outcome.splits)
  show ?thesis unfolding s' by (rule flagInv_deleteLoop[OF c f p])
next
  case AShutdown
  with st obtain m' st' where
    p: "Shutdown (mgr s) (shutdownSt s) = Next (m', st')"
    and s': "s' = s\<lparr>mgr := m', shutdownSt := st'\<rparr>"
    by (auto split: outcome.splits)
  show ?thesis unfolding s' by (rule flagInv_Shutdown[OF f p])
qed

lemma sum_wown_idle: "sum_list (replicate n (wown WIdle)) = {#}"
  by (induction n) (simp_all add: wown_def)

lemma chanInv_init: "chanInv (NewAutogitManager n)"
  by (simp add: chanInv_def ownedChans_def NewAutogitManager_def sum_wown_idle down_def)

lemma flagInv_init: "flagInv (NewAutogitManager n)"
  by (simp add: flagInv_def NewAutogitManager_def list_all_length)

lemma sysInv_run:
  assumes "run join (NewAutogitManager n) acts = Next s"
  shows "chanInv s \<and> flagInv s"
proof (rule run_invariant[where P="\<lambda>s. chanInv s \<and> flagInv s" and join=join
      and s="NewAutogitManager n" and acts=acts])
  fix t a t'
  assume "chanInv t \<and> flagInv t" and "step join t a = Next t'"
  then show "chanInv t' \<and> flagInv t'"
    using chanInv_step flagInv_step by blast
next
  show "chanInv (NewAutogitManager n) \<and> flagInv (NewAutogitManager n)"
    using chanInv_init flagInv_init by blast
next
  show "run join (NewAutogitManager n) acts = Next s" by fact
qed

subsection \<open>Retiring a job\<close>

text \<open>
  In a state the manager reaches, a worker inside \<^verbatim>\<open>doReset\<close> gets through
  the rest of its loop body, whatever the job returns; so does the delete loop.
\<close>

lemma worker_completes:
  assumes r: "run join (NewAutogitManager n) acts = Next s"
    and i: "i < length (workers s)" and w: "workers s ! i = WRun req"
  shows "doneCh req \<notin> closedChans (mgr s) \<and>
    run join s [AWorker i (JobReturn err), AWorker i Clear, AWorker i CloseDone] =
      Next (s\<lparr>mgr := (clearFromInProgress join (mgr s) req)
                 \<lparr>closedChans := insert (doneCh req) (closedChans (mgr s))\<rparr>,
              workers := (workers s)[i := WIdle]\<rparr>)"
proof -
  from sysInv_run[OF r] have c: "chanInv s" by simp
  from w have "wreq (workers s ! i) = Some req" by simp
  from wreq_owned[OF i this] c have n: "doneCh req \<notin> closedChans (mgr s)"
    by (simp add: chanInv_def)
  with i w show ?thesis
    by (simp add: closeChan_def clearFromInProgress_def)
qed

lemma deleteLoop_completes:
  assumes r: "run join (NewAutogitManager n) acts = Next s"
    and w: "deleteSt s = DRun dreq"
  shows "delDoneCh dreq \<notin> closedChans (mgr s) \<and>
    run join s [ADeleteLoop (DJobReturn err), ADeleteLoop DCloseDone] =
      Next (s\<lparr>mgr := (mgr s)\<lparr>closedChans := insert (delDoneCh dreq) (closedChans (mgr s))\<rparr>,
              deleteSt := DIdle\<rparr>)"
proof -
  from sysInv_run[OF r] have c: "chanInv s" by simp
  from w have "delDoneCh dreq \<in># ownedChans s"
    by (simp add: ownedChans_def down_def)
  with c have n: "delDoneCh dreq \<notin> closedChans (mgr s)"
    by (simp add: chanInv_def)
  with w show ?thesis
    by (simp add: closeChan_def)
qed

text \<open>
  C5.  In every state the manager reaches: once the job of a dequeued request
  has returned, with an error or with none, the reset worker clears the
  in-progress entry of the request's identity and decrements the pending
  counter, and then closes the request's channel; the delete loop closes the
  request's channel.  These steps go through, and the state after them is the
  same for every result of the job.
\<close>

theorem worker_retires_job_whatever_it_returned:
  assumes "run join (NewAutogitManager n) acts = Next s"
  shows
   "(\<forall>m req err.
       resetWorker join m (WRun req) (JobReturn err) = Next (m, WClear req) \<and>
       resetWorker join m (WClear req) Clear = Next (clearFromInProgress join m req, WClose req) \<and>
       resetsInProgress (clearFromInProgress join m req) (resetReq_id join req) = None \<and>
       resetsWG (clearFromInProgress join m req) = resetsWG m - 1) \<and>
    (\<forall>i req err. i < length (workers s) \<and> workers s ! i = WRun req \<longrightarrow>
       run join s [AWorker i (JobReturn err), AWorker i Clear, AWorker i CloseDone] =
         Next (s\<lparr>mgr := (clearFromInProgress join (mgr s) req)
                    \<lparr>closedChans := insert (doneCh req) (closedChans (mgr s))\<rparr>,
                 workers := (workers s)[i := WIdle]\<rparr>)) \<and>
    (\<forall>dreq err. deleteSt s = DRun dreq \<longrightarrow>
       run join s [ADeleteLoop (DJobReturn err), ADeleteLoop DCloseDone] =
         Next (s\<lparr>mgr := (mgr s)\<lparr>closedChans := insert (delDoneCh dreq) (closedChans (mgr s))\<rparr>,
                 deleteSt := DIdle\<rparr>))"
proof -
  have a: "\<forall>m req err.
       resetWorker join m (WRun req) (JobReturn err) = Next (m, WClear req) \<and>
       resetWorker join m (WClear req) Clear = Next (clearFromInProgress join m req, WClose req) \<and>
       resetsInProgress (clearFromInProgress join m req) (resetReq_id join req) = None \<and>
       resetsWG (clearFromInProgress join m req) = resetsWG m - 1"
    by (simp add: clearFromInProgress_def)
  have b: "\<forall>i req err. i < length (workers s) \<and> workers s ! i = WRun req \<longrightarrow>
       run join s [AWorker i (JobReturn err), AWorker i Clear, AWorker i CloseDone] =
         Next (s\<lparr>mgr := (clearFromInProgress join (mgr s) req)
                    \<lparr>closedChans := insert (doneCh req) (closedChans (mgr s))\<rparr>,
                 workers := (workers s)[i := WIdle]\<rparr>)"
    using worker_completes[OF assms] by blast
  have c: "\<forall>dreq err. deleteSt s = DRun dreq \<longrightarrow>
       run join s [ADeleteLoop (DJobReturn err), ADeleteLoop DCloseDone] =
         Next (s\<lparr>mgr := (mgr s)\<lparr>closedChans := insert (delDoneCh dreq) (closedChans (mgr s))\<rparr>,
                 deleteSt := DIdle\<rparr>)"
    using deleteLoop_completes[OF assms] by blast
  from a b c show ?thesis by (intro conjI)
qed

theorem worker_retires_job_whatever_it_returned_witness:
  "(\<exists>s s'. run slashJoin (NewAutogitManager 3) busySchedule = Next s \<and>
      workers s ! 0 = WRun reqA \<and>
      resetsWG (mgr s) = 3 \<and>
      run slashJoin s [AWorker 0 (JobReturn (Some (ErrOther ''boom''))),
                       AWorker 0 Clear, AWorker 0 CloseDone] = Next s' \<and>
      workers s' ! 0 = WIdle \<and>
      resetsInProgress (mgr s') (resetReq_id slashJoin reqA) = None \<and>
      resetsWG (mgr s') = 2 \<and>
      doneCh reqA \<in> closedChans (mgr s')) \<and>
   (\<exists>s s'. run slashJoin (NewAutogitManager 1)
        [ADelete SendCase ''/keybase/team/teamB'' ''mirror'' ''proj'' ''master'',
         ADeleteLoop DDequeue] = Next s \<and>
      deleteSt s = DRun delReqA \<and>
      run slashJoin s [ADeleteLoop (DJobReturn (Some (ErrOther ''boom''))),
                       ADeleteLoop DCloseDone] = Next s' \<and>
      deleteSt s' = DIdle \<and>
      delDoneCh delReqA \<in> closedChans (mgr s'))"
proof -
  have "\<exists>s. run slashJoin (NewAutogitManager 3) busySchedule = Next s"
    by (simp add: busySchedule_def NewAutogitManager_def Pull_def makeChan_def queueReset_def
        chSend_def resetReq_id_def markResetReqInProgress_def)
  then obtain s where r: "run slashJoin (NewAutogitManager 3) busySchedule = Next s"
    by blast
  have w: "workers s = [WRun reqA, WWait reqB 2, WRun reqC]"
    and g: "resetsWG (mgr s) = 3"
    using r[symmetric]
    by (simp_all add: busySchedule_def NewAutogitManager_def Pull_def makeChan_def
        queueReset_def chSend_def resetReq_id_def markResetReqInProgress_def
        reqA_def reqB_def reqC_def eval_nat_numeral)
  have h: "(0::nat) < length (workers s)" "workers s ! 0 = WRun reqA"
    by (simp_all add: w)
  let ?s' = "s\<lparr>mgr := (clearFromInProgress slashJoin (mgr s) reqA)
                 \<lparr>closedChans := insert (doneCh reqA) (closedChans (mgr s))\<rparr>,
              workers := (workers s)[0 := WIdle]\<rparr>"
  note T = worker_retires_job_whatever_it_returned[OF r]
  from T h have x: "run slashJoin s [AWorker 0 (JobReturn (Some (ErrOther ''boom''))),
                       AWorker 0 Clear, AWorker 0 CloseDone] = Next ?s'"
    by blast
  from T have y: "resetsInProgress (clearFromInProgress slashJoin (mgr s) reqA)
              (resetReq_id slashJoin reqA) = None"
    and z: "resetsWG (clearFromInProgress slashJoin (mgr s) reqA) = resetsWG (mgr s) - 1"
    by blast+
  have A: "\<exists>s s'. run slashJoin (NewAutogitManager 3) busySchedule = Next s \<and>
      workers s ! 0 = WRun reqA \<and>
      resetsWG (mgr s) = 3 \<and>
      run slashJoin s [AWorker 0 (JobReturn (Some (ErrOther ''boom''))),
                       AWorker 0 Clear, AWorker 0 CloseDone] = Next s' \<and>
      workers s' ! 0 = WIdle \<and>
      resetsInProgress (mgr s') (resetReq_id slashJoin reqA) = None \<and>
      resetsWG (mgr s') = 2 \<and>
      doneCh reqA \<in> closedChans (mgr s')"
    apply (rule exI[of _ s], rule exI[of _ ?s'])
    using r h x y z g w by simp
  have "\<exists>t. run slashJoin (NewAutogitManager 1)
        [ADelete SendCase ''/keybase/team/teamB'' ''mirror'' ''proj'' ''master'',
         ADeleteLoop DDequeue] = Next t"
    by (simp add: NewAutogitManager_def Delete_def makeChan_def chSend_def)
  then obtain t where rt: "run slashJoin (NewAutogitManager 1)
        [ADelete SendCase ''/keybase/team/teamB'' ''mirror'' ''proj'' ''master'',
         ADeleteLoop DDequeue] = Next t"
    by blast
  have dt: "deleteSt t = DRun delReqA"
    using rt[symmetric]
    by (simp_all add: NewAutogitManager_def Delete_def makeChan_def chSend_def delReqA_def)
  let ?t' = "t\<lparr>mgr := (mgr t)\<lparr>closedChans := insert (delDoneCh delReqA) (closedChans (mgr t))\<rparr>,
              deleteSt := DIdle\<rparr>"
  from worker_retires_job_whatever_it_returned[OF rt] dt
  have xt: "run slashJoin t [ADeleteLoop (DJobReturn (Some (ErrOther ''boom''))),
                       ADeleteLoop DCloseDone] = Next ?t'"
    by blast
  have B: "\<exists>s s'. run slashJoin (NewAutogitManager 1)
        [ADelete SendCase ''/keybase/team/teamB'' ''mirror'' ''proj'' ''master'',
         ADeleteLoop DDequeue] = Next s \<and>
      deleteSt s = DRun delReqA \<and>
      run slashJoin s [ADeleteLoop (DJobReturn (Some (ErrOther ''boom''))),
                       ADeleteLoop DCloseDone] = Next s' \<and>
      deleteSt s' = DIdle \<and>
      delDoneCh delReqA \<in> closedChans (mgr s')"
    apply (rule exI[of _ t], rule exI[of _ ?t'])
    using rt dt xt by simp
  from A B show ?thesis by (rule conjI)
qed

subsection \<open>The pending counter\<close>












subsection \<open>Shutdown\<close>





end
